theory Spec2Isabelle
  imports Main
begin

section \<open>Data model\<close>

text \<open>
  The engine of \<^verbatim>\<open>src/src/App.jsx\<close> works on plain JavaScript objects. A cell object
  has the fields \<^verbatim>\<open>value\<close>, \<^verbatim>\<open>formula\<close> and \<^verbatim>\<open>dependencies\<close> (the spec calls the last
  one \<open>dependents\<close>: the cells whose formulas read this cell). A store maps cell
  identifiers to cell objects.

  A JavaScript value held by a cell is either a string (the raw text of a literal, or one
  of the tags \<^verbatim>\<open>#ERROR\<close> and \<^verbatim>\<open>#CIRCULAR\<close>) or a number produced by the external evaluator.
  Numbers are modelled as integers; floating point is outside the model.

  A cell created by \<^verbatim>\<open>handleInputChange\<close> alone has no \<^verbatim>\<open>dependencies\<close> field, so the
  field is optional (\<open>None\<close> is JavaScript's \<^verbatim>\<open>undefined\<close>).
\<close>

datatype jsvalue = Str string | Num int

type_synonym cellid = string

record cell =
  val :: jsvalue
  formula :: string
  dependencies :: "cellid list option"

type_synonym cellstore = "cellid \<rightharpoonup> cell"

text \<open>
  What the code can throw: \<open>RangeError\<close> when the call stack is exhausted (the
  recursion is unbounded), \<open>TypeError\<close> when a method is called on \<^verbatim>\<open>undefined\<close>.
\<close>

datatype error = RangeError | TypeError

text \<open>The external evaluator (\<^verbatim>\<open>evaluate\<close> of mathjs): \<open>None\<close> when it throws.\<close>

type_synonym evaluator = "string \<Rightarrow> jsvalue option"

section \<open>Strings\<close>

definition is_upper :: "char \<Rightarrow> bool" where
  "is_upper c = (let n = (of_char c :: nat) in 65 \<le> n \<and> n \<le> 90)"

definition is_lower :: "char \<Rightarrow> bool" where
  "is_lower c = (let n = (of_char c :: nat) in 97 \<le> n \<and> n \<le> 122)"

definition is_digit :: "char \<Rightarrow> bool" where
  "is_digit c = (let n = (of_char c :: nat) in 48 \<le> n \<and> n \<le> 57)"

text \<open>
  \<^verbatim>\<open>toUpperCase\<close>, on ASCII text: a small letter loses 32, which is its bit 5.
\<close>

fun upperChar :: "char \<Rightarrow> char" where
  "upperChar (Char b0 b1 b2 b3 b4 b5 b6 b7) =
     (if is_lower (Char b0 b1 b2 b3 b4 b5 b6 b7) then Char b0 b1 b2 b3 b4 False b6 b7
      else Char b0 b1 b2 b3 b4 b5 b6 b7)"

definition toUpperCase :: "string \<Rightarrow> string" where
  "toUpperCase s = map upperChar s"

text \<open>\<^verbatim>\<open>s.startsWith("=")\<close>\<close>

fun startsWithEq :: "string \<Rightarrow> bool" where
  "startsWithEq [] = False"
| "startsWithEq (c # cs) = (c = CHR ''='')"

text \<open>
  \<^verbatim>\<open>s.match(/[A-Z]+[0-9]+/g) || []\<close>: all matches, left to right. At each position
  the regular expression takes the longest run of capital letters and then the longest
  run of digits; where the letters are not followed by a digit the match fails at this
  position and the search moves on by one character.
\<close>

function matchRefs :: "string \<Rightarrow> string list" where
  "matchRefs [] = []"
| "matchRefs (c # cs) =
     (if is_upper c then
        (let letters = takeWhile is_upper (c # cs);
             rest = dropWhile is_upper (c # cs);
             digits = takeWhile is_digit rest
         in if digits = [] then matchRefs cs
            else (letters @ digits) # matchRefs (dropWhile is_digit rest))
      else matchRefs cs)"
  by pat_completeness auto
termination
proof (relation "measure length")
  fix c :: char and cs :: string and letters rest digits :: string
  assume "is_upper c" and r: "rest = dropWhile is_upper (c # cs)"
  have "length (dropWhile is_digit rest) \<le> length rest"
    by (rule length_dropWhile_le)
  also have "length rest \<le> length cs"
    using \<open>is_upper c\<close> r by (simp add: length_dropWhile_le)
  finally show "(dropWhile is_digit rest, c # cs) \<in> measure length"
    by simp
qed simp_all

text \<open>The decimal text of a number (\<^verbatim>\<open>String(n)\<close> for an integer).\<close>

definition digitChar :: "nat \<Rightarrow> char" where
  "digitChar d = ''0123456789'' ! (d mod 10)"

function showNat :: "nat \<Rightarrow> string" where
  "showNat n = (if n < 10 then [digitChar n]
                else showNat (n div 10) @ [digitChar (n mod 10)])"
  by pat_completeness auto
termination
  by (relation "measure id") auto

definition toString :: "jsvalue \<Rightarrow> string" where
  "toString v = (case v of
       Str s \<Rightarrow> s
     | Num i \<Rightarrow> (if i < 0 then CHR ''-'' # showNat (nat (- i)) else showNat (nat i)))"

text \<open>JavaScript truthiness: the empty string and 0 are falsy.\<close>

definition truthy :: "jsvalue \<Rightarrow> bool" where
  "truthy v = (case v of Str s \<Rightarrow> s \<noteq> [] | Num i \<Rightarrow> i \<noteq> 0)"

text \<open>
  \<^verbatim>\<open>expression.replace(cellRef, cellValue)\<close> with a string pattern: only the first
  occurrence is replaced, and in the replacement text \<^verbatim>\<open>$$\<close>, \<^verbatim>\<open>$&\<close>, \<^verbatim>\<open>$`\<close> and \<^verbatim>\<open>$'\<close> stand
  for a dollar sign, the matched text, the text before it and the text after it.
\<close>

fun startsWith :: "string \<Rightarrow> string \<Rightarrow> bool" where
  "startsWith s [] = True"
| "startsWith [] (p # ps) = False"
| "startsWith (c # cs) (p # ps) = (c = p \<and> startsWith cs ps)"

fun splitAtFirst :: "string \<Rightarrow> string \<Rightarrow> (string \<times> string) option" where
  "splitAtFirst pat [] = (if pat = [] then Some ([], []) else None)"
| "splitAtFirst pat (c # cs) =
     (if startsWith (c # cs) pat then Some ([], drop (length pat) (c # cs))
      else (case splitAtFirst pat cs of
              None \<Rightarrow> None
            | Some (front, back) \<Rightarrow> Some (c # front, back)))"

fun getSubstitution :: "string \<Rightarrow> string \<Rightarrow> string \<Rightarrow> string \<Rightarrow> string" where
  "getSubstitution matched front back [] = []"
| "getSubstitution matched front back [c] = [c]"
| "getSubstitution matched front back (c # d # t) =
     (if c = CHR ''$'' \<and> d = CHR ''$'' then CHR ''$'' # getSubstitution matched front back t
      else if c = CHR ''$'' \<and> d = CHR ''&'' then matched @ getSubstitution matched front back t
      else if c = CHR ''$'' \<and> d = CHR 0x60 then front @ getSubstitution matched front back t
      else if c = CHR ''$'' \<and> d = CHR 0x27 then back @ getSubstitution matched front back t
      else c # getSubstitution matched front back (d # t))"

definition replaceFirst :: "string \<Rightarrow> string \<Rightarrow> jsvalue \<Rightarrow> string" where
  "replaceFirst s pat v =
     (case splitAtFirst pat s of
        None \<Rightarrow> s
      | Some (front, back) \<Rightarrow> front @ getSubstitution pat front back (toString v) @ back)"

section \<open>The formula evaluator\<close>

text \<open>\<^verbatim>\<open>currentCells[cellRef]?.value || 0\<close>\<close>

definition valueOrZero :: "cellstore \<Rightarrow> cellid \<Rightarrow> jsvalue" where
  "valueOrZero currentCells cellRef =
     (case currentCells cellRef of
        None \<Rightarrow> Num 0
      | Some c \<Rightarrow> (if truthy (val c) then val c else Num 0))"

text \<open>
  The loop of \<^verbatim>\<open>calculateFormula\<close> over the references: \<open>None\<close> is the early
  \<^verbatim>\<open>return "#ERROR"\<close>, \<open>Some e\<close> the expression after all substitutions.
\<close>

fun substituteRefs :: "cellstore \<Rightarrow> cellid list \<Rightarrow> string \<Rightarrow> string option" where
  "substituteRefs currentCells [] expression = Some expression"
| "substituteRefs currentCells (cellRef # cellRefs) expression =
     (let cellValue = valueOrZero currentCells cellRef
      in if cellValue = Str ''#ERROR'' \<or> cellValue = Str ''#CIRCULAR'' then None
         else substituteRefs currentCells cellRefs (replaceFirst expression cellRef cellValue))"

text \<open>
  \<^verbatim>\<open>calculateFormula\<close>, together with the list of the expressions it handed to the
  external evaluator (empty when the evaluator was not called).
\<close>

definition calculateFormulaLog :: "evaluator \<Rightarrow> string \<Rightarrow> cellstore \<Rightarrow> jsvalue \<times> string list" where
  "calculateFormulaLog evaluate f currentCells =
     (if \<not> startsWithEq f then (Str f, [])
      else
        (let expression = toUpperCase (drop 1 f);
             cellRefs = matchRefs expression
         in case substituteRefs currentCells cellRefs expression of
              None \<Rightarrow> (Str ''#ERROR'', [])
            | Some e \<Rightarrow>
                (case evaluate e of
                   None \<Rightarrow> (Str ''#ERROR'', [e])
                 | Some v \<Rightarrow> (v, [e]))))"

definition calculateFormula :: "evaluator \<Rightarrow> string \<Rightarrow> cellstore \<Rightarrow> jsvalue" where
  "calculateFormula evaluate f currentCells =
     fst (calculateFormulaLog evaluate f currentCells)"

section \<open>The cycle detector\<close>

text \<open>\<^verbatim>\<open>allCells[startCell]?.dependencies || []\<close>\<close>

definition dependenciesOrEmpty :: "cellstore \<Rightarrow> cellid \<Rightarrow> cellid list" where
  "dependenciesOrEmpty allCells k =
     (case allCells k of
        None \<Rightarrow> []
      | Some c \<Rightarrow> (case dependencies c of None \<Rightarrow> [] | Some ds \<Rightarrow> ds))"

text \<open>
  A \<^verbatim>\<open>for\<close> loop that returns \<^verbatim>\<open>true\<close> at the first element whose test is true, and
  \<^verbatim>\<open>false\<close> after the last one; an exception of the test leaves the loop.
\<close>

fun firstTrue :: "('a \<Rightarrow> error + bool) \<Rightarrow> 'a list \<Rightarrow> error + bool" where
  "firstTrue test [] = Inr False"
| "firstTrue test (x # xs) =
     (case test x of
        Inl e \<Rightarrow> Inl e
      | Inr b \<Rightarrow> (if b then Inr True else firstTrue test xs))"

text \<open>
  \<^verbatim>\<open>hasCircularDependency\<close>. The first argument is the depth of call stack that is
  left: the recursion of the source has no bound of its own, and a JavaScript engine
  throws a \<^verbatim>\<open>RangeError\<close> when the stack is used up.
\<close>

fun hasCircularDependency :: "nat \<Rightarrow> cellid \<Rightarrow> cellid \<Rightarrow> cellstore \<Rightarrow> error + bool" where
  "hasCircularDependency 0 startCell targetCell allCells = Inl RangeError"
| "hasCircularDependency (Suc n) startCell targetCell allCells =
     (if startCell = targetCell then Inr True
      else firstTrue (\<lambda>dependent. hasCircularDependency n dependent targetCell allCells)
             (dependenciesOrEmpty allCells startCell))"

section \<open>The propagation engine\<close>

text \<open>
  The references of a new formula:
  \<^verbatim>\<open>newFormula.toString().startsWith("=") ? newFormula.toUpperCase().match(...) || [] : []\<close>
\<close>

definition parentsOf :: "string \<Rightarrow> cellid list" where
  "parentsOf newFormula =
     (if startsWithEq newFormula then matchRefs (toUpperCase newFormula) else [])"

text \<open>
  The body of \<^verbatim>\<open>parents.forEach\<close>: the parent is created when absent, and the edited
  cell is pushed on its \<^verbatim>\<open>dependencies\<close> unless it is there already.
\<close>

definition emptyCell :: cell where
  "emptyCell = \<lparr>val = Str [], formula = [], dependencies = Some []\<rparr>"

definition materialize :: "cellid \<Rightarrow> cellstore \<Rightarrow> cellstore" where
  "materialize parent updatedCells =
     (case updatedCells parent of
        None \<Rightarrow> updatedCells(parent \<mapsto> emptyCell)
      | Some c \<Rightarrow> updatedCells)"

definition pushDependent :: "cellid \<Rightarrow> cellid \<Rightarrow> cellstore \<Rightarrow> error + cellstore" where
  "pushDependent startCellId parent updatedCells =
     (case updatedCells parent of
        None \<Rightarrow> Inl TypeError
      | Some c \<Rightarrow>
          (case dependencies c of
             None \<Rightarrow> Inl TypeError
           | Some ds \<Rightarrow>
               Inr (if startCellId \<in> set ds then updatedCells
                    else updatedCells(parent \<mapsto> c\<lparr>dependencies := Some (ds @ [startCellId])\<rparr>))))"

fun addParents :: "cellid \<Rightarrow> cellid list \<Rightarrow> cellstore \<Rightarrow> error + cellstore" where
  "addParents startCellId [] updatedCells = Inr updatedCells"
| "addParents startCellId (parent # parents) updatedCells =
     (case pushDependent startCellId parent (materialize parent updatedCells) of
        Inl e \<Rightarrow> Inl e
      | Inr updatedCells' \<Rightarrow> addParents startCellId parents updatedCells')"

text \<open>
  The body of \<^verbatim>\<open>children.forEach\<close>: a child that is in the store is updated with its
  own formula, and the result is merged over the working store
  (\<^verbatim>\<open>{ ...updatedCells, ...childResult }\<close>).
\<close>

fun refreshChildren ::
  "(cellid \<Rightarrow> string \<Rightarrow> cellstore \<Rightarrow> error + cellstore) \<Rightarrow> cellid list \<Rightarrow> cellstore
     \<Rightarrow> error + cellstore" where
  "refreshChildren update [] updatedCells = Inr updatedCells"
| "refreshChildren update (childId # children) updatedCells =
     (case updatedCells childId of
        None \<Rightarrow> refreshChildren update children updatedCells
      | Some childData \<Rightarrow>
          (case update childId (formula childData) updatedCells of
             Inl e \<Rightarrow> Inl e
           | Inr childResult \<Rightarrow> refreshChildren update children (updatedCells ++ childResult)))"

text \<open>
  \<^verbatim>\<open>updateCellAndDependents\<close>, again with the depth of stack that is left. The source
  pushes on the \<^verbatim>\<open>dependencies\<close> arrays in place, and these arrays are shared with the
  store it was given. This first model is functional: it returns the new store and leaves
  the old one as it was. On one call it returns what the source returns (after a push the
  source reads the arrays only through the newest store, and \<^verbatim>\<open>forEach\<close> fixes the range of
  \<^verbatim>\<open>children\<close> before its first step); the model with the arrays in a heap, further down,
  is proved to agree with it. What the source does to the store it was given is in that
  second model only.
\<close>

fun updateCellAndDependents ::
  "evaluator \<Rightarrow> nat \<Rightarrow> cellid \<Rightarrow> string \<Rightarrow> cellstore \<Rightarrow> error + cellstore" where
  "updateCellAndDependents evaluate 0 startCellId newFormula allCells = Inl RangeError"
| "updateCellAndDependents evaluate (Suc n) startCellId newFormula allCells =
     (let parents = parentsOf newFormula
      in case firstTrue (\<lambda>parent. hasCircularDependency n startCellId parent allCells) parents of
           Inl e \<Rightarrow> Inl e
         | Inr circular \<Rightarrow>
             if circular then
               Inr (allCells(startCellId \<mapsto>
                      \<lparr>val = Str ''#CIRCULAR'', formula = newFormula,
                       dependencies = Some (dependenciesOrEmpty allCells startCellId)\<rparr>))
             else
               (let computedValue = calculateFormula evaluate newFormula allCells;
                    updatedCells = allCells(startCellId \<mapsto>
                      \<lparr>val = computedValue, formula = newFormula,
                       dependencies = Some (dependenciesOrEmpty allCells startCellId)\<rparr>)
                in case addParents startCellId parents updatedCells of
                     Inl e \<Rightarrow> Inl e
                   | Inr updatedCells' \<Rightarrow>
                       refreshChildren
                         (\<lambda>childId f st. updateCellAndDependents evaluate n childId f st)
                         (dependenciesOrEmpty updatedCells' startCellId) updatedCells'))"

section \<open>The interaction handlers\<close>

text \<open>
  The updater of \<^verbatim>\<open>handleInputChange\<close>:
  \<^verbatim>\<open>{ ...prev, [cellId]: { ...prev[cellId], formula: text, value: text } }\<close>
\<close>

definition handleInputChange :: "cellid \<Rightarrow> string \<Rightarrow> cellstore \<Rightarrow> cellstore" where
  "handleInputChange cellId newText prev =
     prev(cellId \<mapsto>
       (case prev cellId of
          None \<Rightarrow> \<lparr>val = Str newText, formula = newText, dependencies = None\<rparr>
        | Some c \<Rightarrow> c\<lparr>formula := newText, val := Str newText\<rparr>))"

text \<open>
  The updater of \<^verbatim>\<open>handleBlur\<close>, the commit of an edit:
  \<^verbatim>\<open>updateCellAndDependents(cellId, currentCells[cellId]?.formula || "", currentCells)\<close>
\<close>

definition handleBlur :: "evaluator \<Rightarrow> nat \<Rightarrow> cellid \<Rightarrow> cellstore \<Rightarrow> error + cellstore" where
  "handleBlur evaluate n cellId currentCells =
     updateCellAndDependents evaluate n cellId
       (case currentCells cellId of None \<Rightarrow> [] | Some c \<Rightarrow> formula c) currentCells"

section \<open>The history manager\<close>

text \<open>
  The state of the history manager: the current store, the stack of committed snapshots
  and the cursor. \<^verbatim>\<open>history[i]\<close> outside the array is \<^verbatim>\<open>undefined\<close>, here \<open>None\<close>. The three
  functions of the history manager move store objects around and never look into them, so
  the type of the snapshots is a parameter.
\<close>

record 's app =
  cells :: "'s option"
  history :: "'s list"
  historyIndex :: nat

definition nthOrUndefined :: "'s list \<Rightarrow> int \<Rightarrow> 's option" where
  "nthOrUndefined xs i = (if 0 \<le> i \<and> i < int (length xs) then Some (xs ! nat i) else None)"

definition initialApp :: "'s \<Rightarrow> 's app" where
  "initialApp emptyStore = \<lparr>cells = Some emptyStore, history = [emptyStore], historyIndex = 0\<rparr>"

definition saveToHistory :: "'s \<Rightarrow> 's app \<Rightarrow> 's app" where
  "saveToHistory newCells st =
     (let newHistory = take (historyIndex st + 1) (history st) @ [newCells]
      in st\<lparr>history := newHistory, historyIndex := length newHistory - 1\<rparr>)"

definition handleUndo :: "'s app \<Rightarrow> 's app" where
  "handleUndo st =
     (if historyIndex st > 0
      then st\<lparr>historyIndex := historyIndex st - 1,
              cells := nthOrUndefined (history st) (int (historyIndex st) - 1)\<rparr>
      else st)"

definition handleRedo :: "'s app \<Rightarrow> 's app" where
  "handleRedo st =
     (if int (historyIndex st) < int (length (history st)) - 1
      then st\<lparr>historyIndex := historyIndex st + 1,
              cells := nthOrUndefined (history st) (int (historyIndex st) + 1)\<rparr>
      else st)"

section \<open>The dependency graph and the committed stores\<close>

text \<open>
  The graph of a store: an edge from \<open>x\<close> to \<open>y\<close> when \<open>y\<close> is in the \<^verbatim>\<open>dependencies\<close> of
  \<open>x\<close>, that is, when \<open>y\<close> is recorded as reading \<open>x\<close>.
\<close>

definition dependentsGraph :: "cellstore \<Rightarrow> (cellid \<times> cellid) set" where
  "dependentsGraph allCells = {(x, y). y \<in> set (dependenciesOrEmpty allCells x)}"

text \<open>What a cell holds besides its \<^verbatim>\<open>dependencies\<close>: its value and its formula.\<close>

definition content :: "cellstore \<Rightarrow> cellid \<Rightarrow> (jsvalue \<times> string) option" where
  "content c k = map_option (\<lambda>x. (val x, formula x)) (c k)"

text \<open>
  The stores of the first model after any number of commits, from the empty store. A
  commit is a blur (\<^verbatim>\<open>handleBlur\<close>), after typing into the cell (\<^verbatim>\<open>handleInputChange\<close>) or
  without typing. Each commit starts from the store the commit before it returned: undo
  and redo steps between two commits are not part of this set. The stores that are
  current in the component with undo and redo are the set \<open>reachable\<close> of the second
  model; they include the stores of this set.
\<close>

inductive_set committed :: "evaluator \<Rightarrow> cellstore set" for evaluate :: evaluator where
  initial: "Map.empty \<in> committed evaluate"
| edit: "currentCells \<in> committed evaluate \<Longrightarrow>
     handleBlur evaluate n cellId (handleInputChange cellId newText currentCells) = Inr finalState \<Longrightarrow>
     finalState \<in> committed evaluate"
| blur: "currentCells \<in> committed evaluate \<Longrightarrow>
     handleBlur evaluate n cellId currentCells = Inr finalState \<Longrightarrow>
     finalState \<in> committed evaluate"

section \<open>Sample stores\<close>

text \<open>
  An evaluator that knows the two expressions of the examples, and throws on every other
  one. The stores are those of the spec's scenarios: \<open>A1 = 5\<close>, then \<open>B1 = A1 + 1\<close>, then
  the rejected edit \<open>A1 = B1\<close>.
\<close>

definition sampleEvaluate :: evaluator where
  "sampleEvaluate expression =
     (if expression = ''0+1'' then Some (Num 1)
      else if expression = ''5+1'' then Some (Num 6)
      else None)"

definition storeA :: cellstore where
  "storeA = [''A1'' \<mapsto> \<lparr>val = Str ''5'', formula = ''5'', dependencies = Some []\<rparr>]"

definition storeAB :: cellstore where
  "storeAB = [''A1'' \<mapsto> \<lparr>val = Str ''5'', formula = ''5'', dependencies = Some [''B1'']\<rparr>,
              ''B1'' \<mapsto> \<lparr>val = Num 6, formula = ''=A1+1'', dependencies = Some []\<rparr>]"

definition rejectedStore :: cellstore where
  "rejectedStore = storeAB(''A1'' \<mapsto>
     \<lparr>val = Str ''#CIRCULAR'', formula = ''=B1'', dependencies = Some [''B1'']\<rparr>)"

definition selfStore :: cellstore where
  "selfStore = [''A1'' \<mapsto> \<lparr>val = Str ''#CIRCULAR'', formula = ''=A1'', dependencies = Some []\<rparr>]"

definition staleStore :: cellstore where
  "staleStore = [''A1'' \<mapsto> \<lparr>val = Str ''5'', formula = ''5'', dependencies = Some [''B1'']\<rparr>,
                 ''B1'' \<mapsto> \<lparr>val = Str ''7'', formula = ''7'', dependencies = Some []\<rparr>]"

definition descendants :: "cellstore \<Rightarrow> cellid \<Rightarrow> cellid set" where
  "descendants allCells k = (dependentsGraph allCells)\<^sup>* `` {k}"

definition wellFormed :: "cellstore \<Rightarrow> bool" where
  "wellFormed allCells = (\<forall>k x. allCells k = Some x \<longrightarrow> dependencies x \<noteq> None)"

definition wellFormedExcept :: "cellid \<Rightarrow> cellstore \<Rightarrow> bool" where
  "wellFormedExcept cellId allCells =
     (\<forall>k x. k \<noteq> cellId \<longrightarrow> allCells k = Some x \<longrightarrow> dependencies x \<noteq> None)"

definition references :: "cellstore \<Rightarrow> cellid \<Rightarrow> cellid \<Rightarrow> bool" where
  "references allCells x y =
     (case allCells x of None \<Rightarrow> False | Some cx \<Rightarrow> y \<in> set (parentsOf (formula cx)))"

definition valueOf :: "cellstore \<Rightarrow> cellid \<Rightarrow> jsvalue option" where
  "valueOf allCells k = map_option val (allCells k)"

definition edgesCompleteExcept :: "cellid set \<Rightarrow> cellstore \<Rightarrow> bool" where
  "edgesCompleteExcept B allCells =
     (\<forall>x y. x \<notin> B \<longrightarrow> references allCells x y
        \<longrightarrow> valueOf allCells x \<noteq> Some (Str ''#CIRCULAR'')
        \<longrightarrow> x \<in> set (dependenciesOrEmpty allCells y))"

definition tagStore :: cellstore where
  "tagStore = [''A1'' \<mapsto> \<lparr>val = Str ''#ERROR'', formula = ''#ERROR'', dependencies = Some []\<rparr>]"

definition errStore :: cellstore where
  "errStore = [''A1'' \<mapsto> \<lparr>val = Str ''#ERROR'', formula = ''=1+'', dependencies = Some [''B1'']\<rparr>,
               ''B1'' \<mapsto> \<lparr>val = Str ''#ERROR'', formula = ''=A1+1'', dependencies = Some []\<rparr>]"

definition rejectable :: "cellstore \<Rightarrow> cellid \<Rightarrow> bool" where
  "rejectable allCells x =
     (\<exists>p. references allCells x p \<and> (x, p) \<in> (dependentsGraph allCells)\<^sup>*)"

definition materializedFor :: "cellid \<Rightarrow> cellid \<Rightarrow> jsvalue \<Rightarrow> string \<Rightarrow> cellstore \<Rightarrow> bool" where
  "materializedFor z e v f0 st =
     (st z = Some \<lparr>val = Str [], formula = [], dependencies = Some [e]\<rparr>
      \<and> content st e = Some (v, f0)
      \<and> z \<notin> Range (dependentsGraph st)
      \<and> (\<forall>x. x \<noteq> e \<longrightarrow> references st x z \<longrightarrow> rejectable st x))"

definition storeCZ :: cellstore where
  "storeCZ = [''C1'' \<mapsto> \<lparr>val = Num 1, formula = ''=Z99+1'', dependencies = Some []\<rparr>,
              ''Z99'' \<mapsto> \<lparr>val = Str [], formula = [], dependencies = Some [''C1'']\<rparr>]"

definition edgesRecordedExcept :: "cellid set \<Rightarrow> cellstore \<Rightarrow> bool" where
  "edgesRecordedExcept B allCells =
     (\<forall>x y. x \<notin> B \<longrightarrow> references allCells x y
        \<longrightarrow> x \<in> set (dependenciesOrEmpty allCells y) \<or> rejectable allCells x)"

definition poisonSettled :: "cellstore \<Rightarrow> cellid \<Rightarrow> bool" where
  "poisonSettled allCells x =
     ((\<exists>y. references allCells x y \<and> valueOf allCells y = Some (Str ''#ERROR''))
      \<longrightarrow> valueOf allCells x = Some (Str ''#ERROR'') \<or> rejectable allCells x)"

definition poisonSettledExcept :: "cellid set \<Rightarrow> cellstore \<Rightarrow> bool" where
  "poisonSettledExcept B allCells = (\<forall>x. x \<notin> B \<longrightarrow> poisonSettled allCells x)"

definition acceptedReferences :: "cellstore \<Rightarrow> (cellid \<times> cellid) set" where
  "acceptedReferences allCells = {(x, y). references allCells x y \<and> \<not> rejectable allCells x}"

definition errStoreC :: cellstore where
  "errStoreC = [''A1'' \<mapsto> \<lparr>val = Str ''#ERROR'', formula = ''=1+'', dependencies = Some [''B1'']\<rparr>,
                ''B1'' \<mapsto> \<lparr>val = Str ''#ERROR'', formula = ''=A1+1'', dependencies = Some [''C1'']\<rparr>,
                ''C1'' \<mapsto> \<lparr>val = Str ''#ERROR'', formula = ''=B1+1'', dependencies = Some []\<rparr>]"

definition brokenStore :: cellstore where
  "brokenStore = [''A1'' \<mapsto> \<lparr>val = Str ''5'', formula = ''5'', dependencies = Some [''B1'']\<rparr>,
                  ''B1'' \<mapsto> \<lparr>val = Str ''#ERROR'', formula = ''=1+'', dependencies = Some []\<rparr>]"

definition staleRejectedStore :: cellstore where
  "staleRejectedStore =
     [''A1'' \<mapsto> \<lparr>val = Str ''#CIRCULAR'', formula = ''=B1+1'', dependencies = Some [''B1'']\<rparr>,
      ''B1'' \<mapsto> \<lparr>val = Str ''#ERROR'', formula = ''=1+'', dependencies = Some []\<rparr>]"

definition materializedIn :: "cellid \<Rightarrow> cellid \<Rightarrow> jsvalue \<Rightarrow> string \<Rightarrow> cellstore \<Rightarrow> bool" where
  "materializedIn z e v f0 st =
     (content st z = Some (Str [], [])
      \<and> e \<in> set (dependenciesOrEmpty st z)
      \<and> content st e = Some (v, f0)
      \<and> z \<notin> Range (dependentsGraph st))"

section \<open>The component and its arrays\<close>

text \<open>
  In the source a store is an object of cell objects, and the \<^verbatim>\<open>dependencies\<close> of a cell
  object is a reference to an array. \<^verbatim>\<open>updateCellAndDependents\<close> copies these references
  into the store it builds (the spread of \<^verbatim>\<open>allCells\<close>, and
  \<^verbatim>\<open>allCells[startCellId]?.dependencies || []\<close> for the edited cell) and pushes on the arrays
  in place, so a store and the stores made from it share their arrays. The model of this
  section keeps the sharing: a cell object holds the address of its array, and the arrays
  are in a heap. Store objects and cell objects are not written to after they are built,
  so they stay values.
\<close>

type_synonym address = nat

record cellObject =
  objValue :: jsvalue
  objFormula :: string
  objDependencies :: "address option"

type_synonym objectStore = "cellid \<rightharpoonup> cellObject"

text \<open>
  The arrays by address, and the next address that is not in use.
\<close>

record heap =
  arrays :: "address \<Rightarrow> cellid list"
  fresh :: address

text \<open>
  A store as the code reads it: every reference to an array is followed into the heap.
\<close>

definition readCell :: "heap \<Rightarrow> cellObject \<Rightarrow> cell" where
  "readCell h obj = \<lparr>val = objValue obj, formula = objFormula obj,
                     dependencies = map_option (arrays h) (objDependencies obj)\<rparr>"

definition readStore :: "heap \<Rightarrow> objectStore \<Rightarrow> cellstore" where
  "readStore h allCells = (\<lambda>k. map_option (readCell h) (allCells k))"

text \<open>
  A new empty array, \<^verbatim>\<open>[]\<close>.
\<close>

definition newArray :: "heap \<Rightarrow> address \<times> heap" where
  "newArray h = (fresh h, \<lparr>arrays = (arrays h)(fresh h := []), fresh = Suc (fresh h)\<rparr>)"

text \<open>
  \<^verbatim>\<open>allCells[startCellId]?.dependencies || []\<close>: the array of the cell when it has one (the
  array itself, not a copy), a new empty array otherwise.
\<close>

definition dependenciesOrNew :: "objectStore \<Rightarrow> cellid \<Rightarrow> heap \<Rightarrow> address \<times> heap" where
  "dependenciesOrNew allCells k h =
     (case allCells k of
        None \<Rightarrow> newArray h
      | Some obj \<Rightarrow> (case objDependencies obj of None \<Rightarrow> newArray h | Some a \<Rightarrow> (a, h)))"

text \<open>
  The body of \<^verbatim>\<open>parents.forEach\<close>: an absent parent is created with a new array, and the
  edited cell is pushed on the array of the parent.
\<close>

definition materialize_heap :: "cellid \<Rightarrow> objectStore \<times> heap \<Rightarrow> objectStore \<times> heap" where
  "materialize_heap parent s =
     (case s of (updatedCells, h) \<Rightarrow>
        (case updatedCells parent of
           None \<Rightarrow>
             (case newArray h of (a, h') \<Rightarrow>
                (updatedCells(parent \<mapsto>
                   \<lparr>objValue = Str [], objFormula = [], objDependencies = Some a\<rparr>), h'))
         | Some obj \<Rightarrow> (updatedCells, h)))"

definition pushDependent_heap ::
  "cellid \<Rightarrow> cellid \<Rightarrow> objectStore \<times> heap \<Rightarrow> error + objectStore \<times> heap" where
  "pushDependent_heap startCellId parent s =
     (case s of (updatedCells, h) \<Rightarrow>
        (case updatedCells parent of
           None \<Rightarrow> Inl TypeError
         | Some obj \<Rightarrow>
             (case objDependencies obj of
                None \<Rightarrow> Inl TypeError
              | Some a \<Rightarrow>
                  Inr (updatedCells,
                       if startCellId \<in> set (arrays h a) then h
                       else h\<lparr>arrays := (arrays h)(a := arrays h a @ [startCellId])\<rparr>))))"

fun addParents_heap ::
  "cellid \<Rightarrow> cellid list \<Rightarrow> objectStore \<times> heap \<Rightarrow> error + objectStore \<times> heap" where
  "addParents_heap startCellId [] s = Inr s"
| "addParents_heap startCellId (parent # parents) s =
     (case pushDependent_heap startCellId parent (materialize_heap parent s) of
        Inl e \<Rightarrow> Inl e
      | Inr s' \<Rightarrow> addParents_heap startCellId parents s')"

text \<open>
  The body of \<^verbatim>\<open>children.forEach\<close>, as in the first model; the heap is handed on.
\<close>

fun refreshChildren_heap ::
  "(cellid \<Rightarrow> string \<Rightarrow> objectStore \<times> heap \<Rightarrow> error + objectStore \<times> heap)
     \<Rightarrow> cellid list \<Rightarrow> objectStore \<times> heap \<Rightarrow> error + objectStore \<times> heap" where
  "refreshChildren_heap update [] s = Inr s"
| "refreshChildren_heap update (childId # children) s =
     (case fst s childId of
        None \<Rightarrow> refreshChildren_heap update children s
      | Some childData \<Rightarrow>
          (case update childId (objFormula childData) s of
             Inl e \<Rightarrow> Inl e
           | Inr r \<Rightarrow> refreshChildren_heap update children (fst s ++ fst r, snd r)))"

text \<open>
  \<^verbatim>\<open>updateCellAndDependents\<close> with the arrays in the heap. The cycle check and
  \<^verbatim>\<open>calculateFormula\<close> only read, so they are the functions of the first model on the store
  as it reads. \<^verbatim>\<open>children\<close> is the array of the edited cell; \<^verbatim>\<open>forEach\<close> visits the elements
  it has when the loop starts.
\<close>

fun updateCellAndDependents_heap ::
  "evaluator \<Rightarrow> nat \<Rightarrow> cellid \<Rightarrow> string \<Rightarrow> objectStore \<times> heap
     \<Rightarrow> error + objectStore \<times> heap" where
  "updateCellAndDependents_heap evaluate 0 startCellId newFormula s = Inl RangeError"
| "updateCellAndDependents_heap evaluate (Suc n) startCellId newFormula s =
     (let allCells = fst s; h = snd s; parents = parentsOf newFormula
      in case firstTrue (\<lambda>parent. hasCircularDependency n startCellId parent (readStore h allCells))
                parents of
           Inl e \<Rightarrow> Inl e
         | Inr circular \<Rightarrow>
             if circular then
               (let d = dependenciesOrNew allCells startCellId h
                in Inr (allCells(startCellId \<mapsto>
                          \<lparr>objValue = Str ''#CIRCULAR'', objFormula = newFormula,
                           objDependencies = Some (fst d)\<rparr>), snd d))
             else
               (let computedValue = calculateFormula evaluate newFormula (readStore h allCells);
                    d = dependenciesOrNew allCells startCellId h;
                    updatedCells = allCells(startCellId \<mapsto>
                      \<lparr>objValue = computedValue, objFormula = newFormula,
                       objDependencies = Some (fst d)\<rparr>)
                in case addParents_heap startCellId parents (updatedCells, snd d) of
                     Inl e \<Rightarrow> Inl e
                   | Inr s' \<Rightarrow>
                       refreshChildren_heap
                         (\<lambda>childId f st. updateCellAndDependents_heap evaluate n childId f st)
                         (arrays (snd s') (fst d)) s'))"

text \<open>
  The updater of \<^verbatim>\<open>handleInputChange\<close>: the spread of \<^verbatim>\<open>prev[cellId]\<close> copies the reference
  to the array.
\<close>

definition handleInputChange_heap :: "cellid \<Rightarrow> string \<Rightarrow> objectStore \<Rightarrow> objectStore" where
  "handleInputChange_heap cellId newText prev =
     prev(cellId \<mapsto>
       (case prev cellId of
          None \<Rightarrow> \<lparr>objValue = Str newText, objFormula = newText, objDependencies = None\<rparr>
        | Some obj \<Rightarrow> obj\<lparr>objFormula := newText, objValue := Str newText\<rparr>))"

text \<open>
  The component: the state of the history manager over store objects, and the heap.
  \<^verbatim>\<open>handleBlur\<close> runs \<^verbatim>\<open>updateCellAndDependents\<close> on the current store, saves the result in
  the history and makes it current. \<^verbatim>\<open>handleUndo\<close> and \<^verbatim>\<open>handleRedo\<close> do not touch the heap.
\<close>

type_synonym component = "objectStore app \<times> heap"

definition initialComponent :: component where
  "initialComponent = (initialApp Map.empty, \<lparr>arrays = (\<lambda>a. []), fresh = 0\<rparr>)"

definition handleInputChange_component :: "cellid \<Rightarrow> string \<Rightarrow> component \<Rightarrow> component" where
  "handleInputChange_component cellId newText c =
     ((fst c)\<lparr>cells := map_option (handleInputChange_heap cellId newText) (cells (fst c))\<rparr>, snd c)"

definition handleBlur_component :: "evaluator \<Rightarrow> nat \<Rightarrow> cellid \<Rightarrow> component \<Rightarrow> error + component" where
  "handleBlur_component evaluate n cellId c =
     (case cells (fst c) of
        None \<Rightarrow> Inl TypeError
      | Some currentCells \<Rightarrow>
          (case updateCellAndDependents_heap evaluate n cellId
                  (case currentCells cellId of None \<Rightarrow> [] | Some obj \<Rightarrow> objFormula obj)
                  (currentCells, snd c) of
             Inl e \<Rightarrow> Inl e
           | Inr r \<Rightarrow> Inr ((saveToHistory (fst r) (fst c))\<lparr>cells := Some (fst r)\<rparr>, snd r)))"

definition handleUndo_component :: "component \<Rightarrow> component" where
  "handleUndo_component c = (handleUndo (fst c), snd c)"

definition handleRedo_component :: "component \<Rightarrow> component" where
  "handleRedo_component c = (handleRedo (fst c), snd c)"

text \<open>
  The current store as the code reads it.
\<close>

definition currentStore :: "component \<Rightarrow> cellstore option" where
  "currentStore c = map_option (readStore (snd c)) (cells (fst c))"

text \<open>
  Sample states: the component after the commit of \<open>A1 = 5\<close>, and after the commit of
  \<open>B1 = A1 + 1\<close> that follows; the store that an undo then makes current, as it reads; and
  that store after the edit \<open>A1 = B1\<close>.
\<close>

definition componentA :: component where
  "componentA =
     (\<lparr>cells = Some [''A1'' \<mapsto> \<lparr>objValue = Str ''5'', objFormula = ''5'', objDependencies = Some 0\<rparr>],
       history = [Map.empty,
                  [''A1'' \<mapsto> \<lparr>objValue = Str ''5'', objFormula = ''5'', objDependencies = Some 0\<rparr>]],
       historyIndex = 1\<rparr>,
      \<lparr>arrays = (\<lambda>a. []), fresh = 1\<rparr>)"

definition componentAB :: component where
  "componentAB =
     (\<lparr>cells = Some [''A1'' \<mapsto> \<lparr>objValue = Str ''5'', objFormula = ''5'', objDependencies = Some 0\<rparr>,
                     ''B1'' \<mapsto> \<lparr>objValue = Num 6, objFormula = ''=A1+1'', objDependencies = Some 1\<rparr>],
       history = [Map.empty,
                  [''A1'' \<mapsto> \<lparr>objValue = Str ''5'', objFormula = ''5'', objDependencies = Some 0\<rparr>],
                  [''A1'' \<mapsto> \<lparr>objValue = Str ''5'', objFormula = ''5'', objDependencies = Some 0\<rparr>,
                   ''B1'' \<mapsto> \<lparr>objValue = Num 6, objFormula = ''=A1+1'', objDependencies = Some 1\<rparr>]],
       historyIndex = 2\<rparr>,
      \<lparr>arrays = (\<lambda>a. [])(0 := [''B1'']), fresh = 2\<rparr>)"

definition undoneStore :: cellstore where
  "undoneStore = [''A1'' \<mapsto> \<lparr>val = Str ''5'', formula = ''5'', dependencies = Some [''B1'']\<rparr>]"

definition undoneRejectedStore :: cellstore where
  "undoneRejectedStore =
     [''A1'' \<mapsto> \<lparr>val = Str ''#CIRCULAR'', formula = ''=B1'', dependencies = Some [''B1'']\<rparr>]"

text \<open>
  The address of the array of a cell, and the conditions under which the two models are
  compared: every array of the store is allocated and no two cells share an array. A call
  keeps the addresses of the cells and only lets arrays grow.
\<close>

definition addressOf :: "objectStore \<Rightarrow> cellid \<Rightarrow> address option" where
  "addressOf allCells k = (case allCells k of None \<Rightarrow> None | Some obj \<Rightarrow> objDependencies obj)"

definition view :: "objectStore \<times> heap \<Rightarrow> cellstore" where
  "view s = readStore (snd s) (fst s)"

definition wellAllocated :: "objectStore \<times> heap \<Rightarrow> bool" where
  "wellAllocated s =
     ((\<forall>k a. addressOf (fst s) k = Some a \<longrightarrow> a < fresh (snd s))
      \<and> (\<forall>k k' a. addressOf (fst s) k = Some a \<longrightarrow> addressOf (fst s) k' = Some a \<longrightarrow> k = k'))"

definition heapGrows :: "heap \<Rightarrow> heap \<Rightarrow> bool" where
  "heapGrows h h' =
     (fresh h \<le> fresh h' \<and> (\<forall>a. a < fresh h \<longrightarrow> set (arrays h a) \<subseteq> set (arrays h' a)))"

definition keepsAddresses :: "objectStore \<Rightarrow> objectStore \<Rightarrow> bool" where
  "keepsAddresses allCells allCells' =
     (\<forall>k a. addressOf allCells k = Some a \<longrightarrow> addressOf allCells' k = Some a)"

definition advances :: "objectStore \<times> heap \<Rightarrow> objectStore \<times> heap \<Rightarrow> bool" where
  "advances s s' = (wellAllocated s' \<and> heapGrows (snd s) (snd s') \<and> keepsAddresses (fst s) (fst s'))"

definition absentRejectedExcept :: "cellid set \<Rightarrow> cellstore \<Rightarrow> bool" where
  "absentRejectedExcept B allCells =
     (\<forall>x y. x \<notin> B \<longrightarrow> references allCells x y \<longrightarrow> y \<notin> dom allCells
        \<longrightarrow> rejectable allCells x)"

text \<open>
  The properties of a store that every commit keeps, and the relation between a store and
  the same store objects read after later pushes: values and formulas are the same, lists
  of dependents may be longer.
\<close>

definition settled :: "cellstore \<Rightarrow> bool" where
  "settled allCells =
     (wellFormed allCells \<and> acyclic (dependentsGraph allCells)
      \<and> edgesCompleteExcept {} allCells \<and> edgesRecordedExcept {} allCells
      \<and> poisonSettledExcept {} allCells \<and> absentRejectedExcept {} allCells)"

definition grown :: "cellstore \<Rightarrow> cellstore \<Rightarrow> bool" where
  "grown allCells allCells' =
     ((\<forall>k. content allCells' k = content allCells k)
      \<and> (\<forall>k. set (dependenciesOrEmpty allCells k) \<subseteq> set (dependenciesOrEmpty allCells' k)))"

text \<open>
  The states of the component after any sequence of edits, blurs, undo and redo steps, and
  the invariant of these states: the cursor is in the history, the current store is the
  snapshot under the cursor, every snapshot is well allocated and settled as it reads
  now, and a later snapshot keeps the arrays of an earlier one.
\<close>

inductive_set reachable :: "evaluator \<Rightarrow> component set" for evaluate :: evaluator where
  start: "initialComponent \<in> reachable evaluate"
| edit: "c \<in> reachable evaluate \<Longrightarrow>
     handleBlur_component evaluate n cellId (handleInputChange_component cellId newText c) = Inr c' \<Longrightarrow>
     c' \<in> reachable evaluate"
| blur: "c \<in> reachable evaluate \<Longrightarrow>
     handleBlur_component evaluate n cellId c = Inr c' \<Longrightarrow>
     c' \<in> reachable evaluate"
| undo: "c \<in> reachable evaluate \<Longrightarrow> handleUndo_component c \<in> reachable evaluate"
| redo: "c \<in> reachable evaluate \<Longrightarrow> handleRedo_component c \<in> reachable evaluate"

definition consistent :: "component \<Rightarrow> bool" where
  "consistent c =
     (historyIndex (fst c) < length (history (fst c))
      \<and> cells (fst c) = Some (history (fst c) ! historyIndex (fst c))
      \<and> (\<forall>S\<in>set (history (fst c)). wellAllocated (S, snd c) \<and> settled (view (S, snd c)))
      \<and> (\<forall>i j. i \<le> j \<longrightarrow> j < length (history (fst c))
            \<longrightarrow> keepsAddresses (history (fst c) ! i) (history (fst c) ! j)))"


section \<open>Loops\<close>

lemma firstTrue_False: "firstTrue test xs = Inr False \<Longrightarrow> x \<in> set xs \<Longrightarrow> test x = Inr False"
  by (induction xs) (auto split: sum.splits if_splits)

lemma firstTrue_True: "firstTrue test xs = Inr True \<Longrightarrow> \<exists>x\<in>set xs. test x = Inr True"
  by (induction xs) (auto split: sum.splits if_splits)

lemma firstTrue_hit:
  "firstTrue test xs = Inr b \<Longrightarrow> x \<in> set xs \<Longrightarrow> test x = Inr True \<Longrightarrow> b"
  by (induction xs) (auto split: sum.splits if_splits)

lemma refreshChildren_invariant:
  assumes "refreshChildren upd ks st = Inr r"
    and "I st"
    and "\<And>k cd st' r'. k \<in> set ks \<Longrightarrow> I st' \<Longrightarrow> st' k = Some cd
            \<Longrightarrow> upd k (formula cd) st' = Inr r' \<Longrightarrow> I (st' ++ r')"
  shows "I r"
  using assms
proof (induction ks arbitrary: st)
  case Nil
  then show ?case by simp
next
  case (Cons k ks)
  show ?case
  proof (cases "st k")
    case None
    with Cons.prems(1) have "refreshChildren upd ks st = Inr r"
      by simp
    then show ?thesis
      using Cons.IH Cons.prems(2,3) by (metis list.set_intros(2))
  next
    case (Some cd)
    with Cons.prems(1) obtain r' where r': "upd k (formula cd) st = Inr r'"
      and rest: "refreshChildren upd ks (st ++ r') = Inr r"
      by (auto split: sum.splits)
    have "I (st ++ r')"
      using Cons.prems(2,3) Some r' by (metis list.set_intros(1))
    then show ?thesis
      using Cons.IH rest Cons.prems(3) by (metis list.set_intros(2))
  qed
qed

section \<open>The cycle detector decides reachability\<close>

lemma mem_graph: "((x, y) \<in> dependentsGraph c) = (y \<in> set (dependenciesOrEmpty c x))"
  by (simp add: dependentsGraph_def)

lemma hasCircularDependency_reaches:
  "hasCircularDependency n s t c = Inr b \<Longrightarrow> b = ((s, t) \<in> (dependentsGraph c)\<^sup>*)"
proof (induction n arbitrary: s b)
  case 0
  then show ?case by simp
next
  case (Suc n)
  show ?case
  proof (cases "s = t")
    case True
    with Suc.prems show ?thesis by simp
  next
    case False
    with Suc.prems have ft:
      "firstTrue (\<lambda>d. hasCircularDependency n d t c) (dependenciesOrEmpty c s) = Inr b"
      by simp
    show ?thesis
    proof (cases b)
      case True
      with ft obtain d where d: "d \<in> set (dependenciesOrEmpty c s)"
        and "hasCircularDependency n d t c = Inr True"
        using firstTrue_True by fastforce
      then have "(d, t) \<in> (dependentsGraph c)\<^sup>*"
        using Suc.IH by blast
      moreover have "(s, d) \<in> dependentsGraph c"
        using d by (simp add: mem_graph)
      ultimately show ?thesis
        using True by (simp add: converse_rtrancl_into_rtrancl)
    next
      case nb: False
      have "(s, t) \<notin> (dependentsGraph c)\<^sup>*"
      proof
        assume "(s, t) \<in> (dependentsGraph c)\<^sup>*"
        then obtain d where sd: "(s, d) \<in> dependentsGraph c" and dt: "(d, t) \<in> (dependentsGraph c)\<^sup>*"
          using False by (auto elim: converse_rtranclE)
        from sd have "d \<in> set (dependenciesOrEmpty c s)"
          by (simp add: mem_graph)
        with ft nb have "hasCircularDependency n d t c = Inr False"
          using firstTrue_False by fastforce
        with dt show False
          using Suc.IH by blast
      qed
      with nb show ?thesis by simp
    qed
  qed
qed

lemma reach_edges_into_start:
  "(s, y) \<in> (E \<union> P \<times> {s})\<^sup>* \<Longrightarrow> (s, y) \<in> E\<^sup>*"
  by (induction rule: rtrancl_induct) auto

lemma acyclic_edges_into_start:
  assumes "acyclic E" and "\<forall>p\<in>set ps. (s, p) \<notin> E\<^sup>*"
  shows "acyclic (E \<union> set ps \<times> {s})"
  using assms(2)
proof (induction ps)
  case Nil
  with assms(1) show ?case by simp
next
  case (Cons p ps)
  have eq: "E \<union> set (p # ps) \<times> {s} = insert (p, s) (E \<union> set ps \<times> {s})"
    by auto
  have "(s, p) \<notin> (E \<union> set ps \<times> {s})\<^sup>*"
    using Cons.prems reach_edges_into_start[of s p E "set ps"] by auto
  moreover have "acyclic (E \<union> set ps \<times> {s})"
    using Cons by simp
  ultimately show ?case
    unfolding eq by simp
qed

lemma reach_edges_into_descendants:
  assumes sub: "E' \<subseteq> E \<union> {(p, d). (a, d) \<in> E\<^sup>*}"
    and "(a, y) \<in> E'\<^sup>*"
  shows "(a, y) \<in> E\<^sup>*"
  using assms(2)
proof (induction rule: rtrancl_induct)
  case base
  then show ?case by simp
next
  case (step y z)
  from step.hyps(2) sub have "(y, z) \<in> E \<or> (a, z) \<in> E\<^sup>*"
    by auto
  with step.IH show ?case by auto
qed


section \<open>The steps of a commit\<close>

lemma dependenciesOrEmpty_upd_same:
  "dependenciesOrEmpty (c(s \<mapsto> \<lparr>val = v, formula = f, dependencies = Some (dependenciesOrEmpty c s)\<rparr>))
     = dependenciesOrEmpty c"
  by (rule ext) (simp add: dependenciesOrEmpty_def)

lemma dependentsGraph_upd_same:
  "dependentsGraph (c(s \<mapsto> \<lparr>val = v, formula = f, dependencies = Some (dependenciesOrEmpty c s)\<rparr>))
     = dependentsGraph c"
  by (simp add: dependentsGraph_def dependenciesOrEmpty_upd_same)

lemma dependenciesOrEmpty_materialize:
  "dependenciesOrEmpty (materialize p u) = dependenciesOrEmpty u"
  by (rule ext) (simp add: dependenciesOrEmpty_def materialize_def emptyCell_def split: option.splits)

lemma materialize_other: "k \<noteq> p \<Longrightarrow> materialize p u k = u k"
  by (simp add: materialize_def split: option.splits)

lemma materialize_present: "u k = Some x \<Longrightarrow> materialize p u k = Some x"
  by (auto simp: materialize_def split: option.splits)

lemma materialize_absent: "u p = None \<Longrightarrow> materialize p u p = Some emptyCell"
  by (simp add: materialize_def)

lemma dom_materialize: "dom (materialize p u) = insert p (dom u)"
  by (auto simp: materialize_def split: option.splits)

lemma pushDependent_cases:
  assumes "pushDependent s p u = Inr u'"
  obtains x ds where "u p = Some x" "dependencies x = Some ds"
    "u' = (if s \<in> set ds then u else u(p \<mapsto> x\<lparr>dependencies := Some (ds @ [s])\<rparr>))"
  using assms by (auto simp: pushDependent_def split: option.splits)

lemma pushDependent_Inr:
  assumes "pushDependent s p u = Inr u'"
  shows "dependenciesOrEmpty u' k =
           (if k = p \<and> s \<notin> set (dependenciesOrEmpty u p) then dependenciesOrEmpty u p @ [s]
            else dependenciesOrEmpty u k)"
    and "content u' = content u"
    and "dom u' = dom u"
    and "k \<noteq> p \<Longrightarrow> u' k = u k"
    and "p \<in> dom u"
proof -
  from assms obtain x ds where x: "u p = Some x" "dependencies x = Some ds"
    and u': "u' = (if s \<in> set ds then u else u(p \<mapsto> x\<lparr>dependencies := Some (ds @ [s])\<rparr>))"
    by (rule pushDependent_cases)
  show "dependenciesOrEmpty u' k =
           (if k = p \<and> s \<notin> set (dependenciesOrEmpty u p) then dependenciesOrEmpty u p @ [s]
            else dependenciesOrEmpty u k)"
    using x by (simp add: u' dependenciesOrEmpty_def)
  show "content u' = content u"
    using x by (auto simp: u' content_def fun_eq_iff)
  show "dom u' = dom u"
    using x by (auto simp: u')
  show "k \<noteq> p \<Longrightarrow> u' k = u k"
    by (simp add: u')
  show "p \<in> dom u"
    using x by auto
qed

lemma addParents_Inr:
  "addParents s ps u = Inr u' \<Longrightarrow>
     (\<forall>k. set (dependenciesOrEmpty u' k)
            = set (dependenciesOrEmpty u k) \<union> (if k \<in> set ps then {s} else {}))
     \<and> dom u' = dom u \<union> set ps
     \<and> (\<forall>k. k \<in> dom u \<longrightarrow> content u' k = content u k)
     \<and> (\<forall>k. k \<notin> dom u \<longrightarrow> k \<in> set ps \<longrightarrow> content u' k = Some (Str [], []))
     \<and> (\<forall>k. k \<notin> set ps \<longrightarrow> u' k = u k)"
proof (induction ps arbitrary: u)
  case Nil
  then show ?case by simp
next
  case (Cons p ps)
  from Cons.prems obtain u1 where
    p1: "pushDependent s p (materialize p u) = Inr u1" and rest: "addParents s ps u1 = Inr u'"
    by (auto split: sum.splits)
  note P = pushDependent_Inr[OF p1]
  note IH = Cons.IH[OF rest]
  have d1: "\<And>k. set (dependenciesOrEmpty u1 k)
              = set (dependenciesOrEmpty u k) \<union> (if k = p then {s} else {})"
    by (auto simp: P(1) dependenciesOrEmpty_materialize)
  have dom1: "dom u1 = insert p (dom u)"
    by (simp add: P(3) dom_materialize)
  have c1: "\<And>k. k \<in> dom u \<Longrightarrow> content u1 k = content u k"
    using P(2) by (auto simp: content_def materialize_present)
  have c2: "u p = None \<Longrightarrow> content u1 p = Some (Str [], [])"
    using P(2) by (simp add: content_def materialize_absent emptyCell_def)
  have o1: "\<And>k. k \<noteq> p \<Longrightarrow> u1 k = u k"
    by (simp add: P(4) materialize_other)
  show ?case
  proof (intro conjI allI impI)
    fix k
    show "set (dependenciesOrEmpty u' k)
            = set (dependenciesOrEmpty u k) \<union> (if k \<in> set (p # ps) then {s} else {})"
      using IH d1[of k] by auto
  next
    show "dom u' = dom u \<union> set (p # ps)"
      using IH dom1 by auto
  next
    fix k assume "k \<in> dom u"
    then show "content u' k = content u k"
      using IH dom1 c1 by auto
  next
    fix k assume k: "k \<notin> dom u" "k \<in> set (p # ps)"
    show "content u' k = Some (Str [], [])"
    proof (cases "k = p")
      case True
      with k have "content u1 p = Some (Str [], [])"
        using c2 by auto
      moreover have "p \<in> dom u1"
        using dom1 by simp
      ultimately show ?thesis
        using IH True by auto
    next
      case False
      with k have "k \<notin> dom u1" "k \<in> set ps"
        using dom1 by auto
      then show ?thesis
        using IH by auto
    qed
  next
    fix k assume "k \<notin> set (p # ps)"
    then show "u' k = u k"
      using IH o1 by auto
  qed
qed

lemma addParents_graph:
  "addParents s ps u = Inr u' \<Longrightarrow> dependentsGraph u' = dependentsGraph u \<union> set ps \<times> {s}"
  using addParents_Inr[of s ps u u'] by (auto simp: dependentsGraph_def split: if_splits)

lemma update_Suc_cases:
  assumes "updateCellAndDependents ev (Suc n) s f c = Inr r"
  obtains
    (circular) "firstTrue (\<lambda>p. hasCircularDependency n s p c) (parentsOf f) = Inr True"
      "r = c(s \<mapsto> \<lparr>val = Str ''#CIRCULAR'', formula = f,
                   dependencies = Some (dependenciesOrEmpty c s)\<rparr>)"
  | (computed) u where
      "firstTrue (\<lambda>p. hasCircularDependency n s p c) (parentsOf f) = Inr False"
      "addParents s (parentsOf f)
         (c(s \<mapsto> \<lparr>val = calculateFormula ev f c, formula = f,
                  dependencies = Some (dependenciesOrEmpty c s)\<rparr>)) = Inr u"
      "refreshChildren (\<lambda>k g st. updateCellAndDependents ev n k g st)
         (dependenciesOrEmpty u s) u = Inr r"
  using assms by (auto simp: Let_def split: sum.splits if_splits)

lemma update_dom: "updateCellAndDependents ev n s f c = Inr r \<Longrightarrow> dom c \<subseteq> dom r \<and> s \<in> dom r"
proof (cases n)
  case 0
  assume "updateCellAndDependents ev n s f c = Inr r"
  with 0 show ?thesis by simp
next
  case (Suc m)
  assume "updateCellAndDependents ev n s f c = Inr r"
  with Suc have "updateCellAndDependents ev (Suc m) s f c = Inr r" by simp
  then show ?thesis
  proof (cases rule: update_Suc_cases)
    case circular
    then show ?thesis by auto
  next
    case (computed u)
    have du: "dom u = insert s (dom c) \<union> set (parentsOf f)"
      using addParents_Inr[OF computed(2)] by auto
    have "dom u \<subseteq> dom r"
      by (rule refreshChildren_invariant[OF computed(3), where I = "\<lambda>st. dom u \<subseteq> dom st"]) auto
    with du show ?thesis by auto
  qed
qed

lemma update_merge:
  "updateCellAndDependents ev n s f c = Inr r \<Longrightarrow> c ++ r = r"
proof -
  assume "updateCellAndDependents ev n s f c = Inr r"
  then have "dom c \<subseteq> dom r"
    using update_dom by blast
  then show ?thesis
    by (auto simp: fun_eq_iff map_add_def split: option.splits)
qed

lemma refreshChildren_update_invariant:
  assumes "refreshChildren (\<lambda>k g st. updateCellAndDependents ev n k g st) ks st = Inr r"
    and "I st"
    and "\<And>k cd st' r'. k \<in> set ks \<Longrightarrow> I st' \<Longrightarrow> st' k = Some cd
            \<Longrightarrow> updateCellAndDependents ev n k (formula cd) st' = Inr r' \<Longrightarrow> I r'"
  shows "I r"
  by (rule refreshChildren_invariant[OF assms(1), where I = I])
     (use assms(2,3) in \<open>auto simp: update_merge\<close>)


lemma update_graph:
  "updateCellAndDependents ev n s f c = Inr r \<Longrightarrow>
     dependentsGraph c \<subseteq> dependentsGraph r
     \<and> dependentsGraph r \<subseteq> dependentsGraph c \<union> {(p, d). (s, d) \<in> (dependentsGraph c)\<^sup>*}
     \<and> (acyclic (dependentsGraph c) \<longrightarrow> acyclic (dependentsGraph r))"
proof (induction n arbitrary: s f c r)
  case 0
  then show ?case by simp
next
  case (Suc n)
  from Suc.prems show ?case
  proof (cases rule: update_Suc_cases)
    case circular
    have "dependentsGraph r = dependentsGraph c"
      unfolding circular(2) by (rule dependentsGraph_upd_same)
    then show ?thesis
      by auto
  next
    case (computed u)
    let ?E = "dependentsGraph c" and ?U = "dependentsGraph u"
    have gu: "?U = ?E \<union> set (parentsOf f) \<times> {s}"
      using addParents_graph[OF computed(2)] by (simp add: dependentsGraph_upd_same)
    have unreached: "\<forall>p\<in>set (parentsOf f). (s, p) \<notin> ?E\<^sup>*"
    proof
      fix p assume "p \<in> set (parentsOf f)"
      with computed(1) have "hasCircularDependency n s p c = Inr False"
        by (rule firstTrue_False)
      from hasCircularDependency_reaches[OF this] show "(s, p) \<notin> ?E\<^sup>*"
        by simp
    qed
    have reach_u: "\<And>y. (s, y) \<in> ?U\<^sup>* \<Longrightarrow> (s, y) \<in> ?E\<^sup>*"
      unfolding gu by (rule reach_edges_into_start)
    have acyc_u: "acyclic ?U" if "acyclic ?E"
      unfolding gu using that unreached by (rule acyclic_edges_into_start)
    let ?I = "\<lambda>st. ?U \<subseteq> dependentsGraph st
                \<and> dependentsGraph st \<subseteq> ?U \<union> {(p, d). (s, d) \<in> ?U\<^sup>*}
                \<and> (acyclic ?U \<longrightarrow> acyclic (dependentsGraph st))"
    have "?I r"
    proof (rule refreshChildren_update_invariant[OF computed(3), where I = ?I])
      show "?I u" by auto
    next
      fix k cd st' r'
      assume k: "k \<in> set (dependenciesOrEmpty u s)" and I: "?I st'"
        and "st' k = Some cd"
        and upd: "updateCellAndDependents ev n k (formula cd) st' = Inr r'"
      note IH = Suc.IH[OF upd]
      have I1: "?U \<subseteq> dependentsGraph st'"
        using I by (rule conjunct1)
      have "(s, k) \<in> ?U"
        using k by (simp add: mem_graph)
      with I1 have sk: "(s, k) \<in> dependentsGraph st'"
        by (rule subsetD)
      have I2: "dependentsGraph st' \<subseteq> ?U \<union> {(p, d). (s, d) \<in> ?U\<^sup>*}"
        using I by (rule conjunct2[THEN conjunct1])
      have desc: "(s, d) \<in> ?U\<^sup>*" if "(k, d) \<in> (dependentsGraph st')\<^sup>*" for d
      proof -
        from sk that have "(s, d) \<in> (dependentsGraph st')\<^sup>*"
          by (rule converse_rtrancl_into_rtrancl)
        with I2 show ?thesis
          by (rule reach_edges_into_descendants)
      qed
      have IH1: "dependentsGraph st' \<subseteq> dependentsGraph r'"
        using IH by (rule conjunct1)
      have IH2: "dependentsGraph r' \<subseteq> dependentsGraph st' \<union> {(p, d). (k, d) \<in> (dependentsGraph st')\<^sup>*}"
        using IH by (rule conjunct2[THEN conjunct1])
      have IH3: "acyclic (dependentsGraph st') \<longrightarrow> acyclic (dependentsGraph r')"
        using IH by (rule conjunct2[THEN conjunct2])
      have I3: "acyclic ?U \<longrightarrow> acyclic (dependentsGraph st')"
        using I by (rule conjunct2[THEN conjunct2])
      have a: "?U \<subseteq> dependentsGraph r'"
        using I1 IH1 by (rule subset_trans)
      have b: "dependentsGraph r' \<subseteq> ?U \<union> {(p, d). (s, d) \<in> ?U\<^sup>*}"
      proof
        fix e assume e: "e \<in> dependentsGraph r'"
        obtain p d where pd: "e = (p, d)" by (cases e)
        from IH2 e have "e \<in> dependentsGraph st' \<or> e \<in> {(p, d). (k, d) \<in> (dependentsGraph st')\<^sup>*}"
          by auto
        then show "e \<in> ?U \<union> {(p, d). (s, d) \<in> ?U\<^sup>*}"
          using I2 desc pd by auto
      qed
      have c: "acyclic ?U \<longrightarrow> acyclic (dependentsGraph r')"
        using IH3 I3 by simp
      from a b c show "?I r'"
        by simp
    qed
    then have r1: "?E \<subseteq> dependentsGraph r"
      and r2: "dependentsGraph r \<subseteq> ?U \<union> {(p, d). (s, d) \<in> ?U\<^sup>*}"
      and r3: "acyclic ?U \<longrightarrow> acyclic (dependentsGraph r)"
      using gu by auto
    have "dependentsGraph r \<subseteq> ?E \<union> {(p, d). (s, d) \<in> ?E\<^sup>*}"
    proof
      fix e assume "e \<in> dependentsGraph r"
      with r2 have "e \<in> ?U \<or> e \<in> {(p, d). (s, d) \<in> ?U\<^sup>*}"
        by auto
      then show "e \<in> ?E \<union> {(p, d). (s, d) \<in> ?E\<^sup>*}"
        using reach_u gu by auto
    qed
    with r1 r3 acyc_u show ?thesis
      by simp
  qed
qed

lemma handleInputChange_dependencies:
  "dependenciesOrEmpty (handleInputChange k t c) = dependenciesOrEmpty c"
  by (rule ext) (simp add: handleInputChange_def dependenciesOrEmpty_def split: option.splits)

lemma handleInputChange_graph:
  "dependentsGraph (handleInputChange k t c) = dependentsGraph c"
  by (simp add: dependentsGraph_def handleInputChange_dependencies)

lemma committed_acyclic: "c \<in> committed ev \<Longrightarrow> acyclic (dependentsGraph c)"
proof (induction rule: committed.induct)
  case initial
  show ?case
    by (simp add: dependentsGraph_def dependenciesOrEmpty_def acyclic_def)
next
  case (edit currentCells n cellId newText finalState)
  from edit.hyps(2) have "acyclic (dependentsGraph (handleInputChange cellId newText currentCells))
      \<longrightarrow> acyclic (dependentsGraph finalState)"
    unfolding handleBlur_def by (rule update_graph[THEN conjunct2, THEN conjunct2])
  with edit.IH show ?case
    by (simp add: handleInputChange_graph)
next
  case (blur currentCells n cellId finalState)
  from blur.hyps(2) have "acyclic (dependentsGraph currentCells)
      \<longrightarrow> acyclic (dependentsGraph finalState)"
    unfolding handleBlur_def by (rule update_graph[THEN conjunct2, THEN conjunct2])
  with blur.IH show ?case
    by simp
qed

lemma would_cycle_reached:
  assumes "acyclic E" and "\<not> acyclic (E \<union> set ps \<times> {s})"
  shows "\<exists>p\<in>set ps. (s, p) \<in> E\<^sup>*"
proof (rule ccontr)
  assume "\<not> (\<exists>p\<in>set ps. (s, p) \<in> E\<^sup>*)"
  then have "\<forall>p\<in>set ps. (s, p) \<notin> E\<^sup>*"
    by simp
  with assms(1) have "acyclic (E \<union> set ps \<times> {s})"
    by (rule acyclic_edges_into_start)
  with assms(2) show False
    by simp
qed

lemma update_rejected:
  assumes "updateCellAndDependents ev n s f c = Inr r"
    and "\<exists>p\<in>set (parentsOf f). (s, p) \<in> (dependentsGraph c)\<^sup>*"
  shows "r = c(s \<mapsto> \<lparr>val = Str ''#CIRCULAR'', formula = f,
                     dependencies = Some (dependenciesOrEmpty c s)\<rparr>)"
proof (cases n)
  case 0
  with assms(1) show ?thesis by simp
next
  case (Suc m)
  with assms(1) have "updateCellAndDependents ev (Suc m) s f c = Inr r" by simp
  then show ?thesis
  proof (cases rule: update_Suc_cases)
    case circular
    then show ?thesis by simp
  next
    case (computed u)
    from assms(2) obtain p where p: "p \<in> set (parentsOf f)" "(s, p) \<in> (dependentsGraph c)\<^sup>*"
      by auto
    from computed(1) p(1) have "hasCircularDependency m s p c = Inr False"
      by (rule firstTrue_False)
    from hasCircularDependency_reaches[OF this] p(2) show ?thesis
      by simp
  qed
qed

section \<open>The sample stores are what the commits return\<close>

lemmas engine_defs = handleBlur_def handleInputChange_def parentsOf_def calculateFormula_def
  calculateFormulaLog_def toUpperCase_def is_upper_def is_lower_def is_digit_def valueOrZero_def
  replaceFirst_def toString_def digitChar_def dependenciesOrEmpty_def materialize_def
  pushDependent_def truthy_def emptyCell_def Let_def

lemma storeA_commit:
  "handleBlur sampleEvaluate (Suc (Suc 0)) ''A1'' (handleInputChange ''A1'' ''5'' Map.empty) = Inr storeA"
  by (simp add: engine_defs storeA_def)

lemma storeAB_commit:
  "handleBlur sampleEvaluate (Suc (Suc 0)) ''B1'' (handleInputChange ''B1'' ''=A1+1'' storeA) = Inr storeAB"
  by (simp add: engine_defs storeA_def storeAB_def sampleEvaluate_def fun_eq_iff)

lemma storeAB_committed: "storeAB \<in> committed sampleEvaluate"
  using committed.edit[OF committed.edit[OF committed.initial storeA_commit] storeAB_commit] .


lemma rejected_commit:
  "updateCellAndDependents sampleEvaluate (Suc (Suc (Suc 0))) ''A1'' ''=B1'' storeAB = Inr rejectedStore"
  by (simp add: engine_defs storeAB_def rejectedStore_def fun_eq_iff)

lemma self_commit:
  "updateCellAndDependents sampleEvaluate (Suc (Suc 0)) ''A1'' ''=A1'' Map.empty = Inr selfStore"
  by (simp add: engine_defs selfStore_def)

lemma stale_commit:
  "updateCellAndDependents sampleEvaluate (Suc (Suc 0)) ''B1'' ''7'' storeAB = Inr staleStore"
  by (simp add: engine_defs storeAB_def staleStore_def fun_eq_iff)

section \<open>Acyclicity\<close>

text \<open>
  C1. Every store that the component reaches by commits from the empty store has an
  acyclic graph of dependents. And when the references of a new formula would close a
  cycle (the graph with an edge from each reference to the edited cell is not acyclic any
  more), the commit gives the edited cell the value \<^verbatim>\<open>#CIRCULAR\<close>, leaves the graph as
  it was and leaves every other cell as it was. A commit on any store with an acyclic
  graph, however the store was obtained, returns a store with an acyclic graph.
\<close>

theorem acyclicity:
  "(allCells \<in> committed evaluate \<longrightarrow> acyclic (dependentsGraph allCells))
   \<and> (acyclic (dependentsGraph allCells)
      \<and> \<not> acyclic (dependentsGraph allCells \<union> set (parentsOf newFormula) \<times> {startCellId})
      \<and> updateCellAndDependents evaluate n startCellId newFormula allCells = Inr r
      \<longrightarrow> map_option val (r startCellId) = Some (Str ''#CIRCULAR'')
          \<and> dependentsGraph r = dependentsGraph allCells
          \<and> (\<forall>k. k \<noteq> startCellId \<longrightarrow> r k = allCells k))
   \<and> (acyclic (dependentsGraph allCells)
      \<and> updateCellAndDependents evaluate n startCellId newFormula allCells = Inr r
      \<longrightarrow> acyclic (dependentsGraph r))"
proof (intro conjI impI)
  assume "allCells \<in> committed evaluate"
  then show "acyclic (dependentsGraph allCells)"
    by (rule committed_acyclic)
next
  assume a: "acyclic (dependentsGraph allCells)
      \<and> \<not> acyclic (dependentsGraph allCells \<union> set (parentsOf newFormula) \<times> {startCellId})
      \<and> updateCellAndDependents evaluate n startCellId newFormula allCells = Inr r"
  then have a1: "acyclic (dependentsGraph allCells)"
    and a2: "\<not> acyclic (dependentsGraph allCells \<union> set (parentsOf newFormula) \<times> {startCellId})"
    and a3: "updateCellAndDependents evaluate n startCellId newFormula allCells = Inr r"
    by simp_all
  from a1 a2 have "\<exists>p\<in>set (parentsOf newFormula). (startCellId, p) \<in> (dependentsGraph allCells)\<^sup>*"
    by (rule would_cycle_reached)
  with a3 have r: "r = allCells(startCellId \<mapsto> \<lparr>val = Str ''#CIRCULAR'', formula = newFormula,
                     dependencies = Some (dependenciesOrEmpty allCells startCellId)\<rparr>)"
    by (rule update_rejected)
  show "map_option val (r startCellId) = Some (Str ''#CIRCULAR'')"
    by (simp add: r)
  show "dependentsGraph r = dependentsGraph allCells"
    unfolding r by (rule dependentsGraph_upd_same)
  show "\<forall>k. k \<noteq> startCellId \<longrightarrow> r k = allCells k"
    by (simp add: r)
next
  assume "acyclic (dependentsGraph allCells)
      \<and> updateCellAndDependents evaluate n startCellId newFormula allCells = Inr r"
  then have a1: "acyclic (dependentsGraph allCells)"
    and a3: "updateCellAndDependents evaluate n startCellId newFormula allCells = Inr r"
    by simp_all
  from update_graph[OF a3] a1 show "acyclic (dependentsGraph r)"
    by simp
qed

theorem acyclicity_witness:
  "storeAB \<in> committed sampleEvaluate
   \<and> acyclic (dependentsGraph storeAB)
   \<and> \<not> acyclic (dependentsGraph storeAB \<union> set (parentsOf ''=B1'') \<times> {''A1''})
   \<and> updateCellAndDependents sampleEvaluate (Suc (Suc (Suc 0))) ''A1'' ''=B1'' storeAB = Inr rejectedStore
   \<and> map_option val (rejectedStore ''A1'') = Some (Str ''#CIRCULAR'')
   \<and> dependentsGraph rejectedStore = dependentsGraph storeAB"
proof -
  let ?G = "dependentsGraph storeAB \<union> set (parentsOf ''=B1'') \<times> {''A1''}"
  note T = acyclicity[of storeAB sampleEvaluate "''=B1''" "''A1''" "Suc (Suc (Suc 0))" rejectedStore]
  from T have "storeAB \<in> committed sampleEvaluate \<longrightarrow> acyclic (dependentsGraph storeAB)"
    by (rule conjunct1)
  then have acyc: "acyclic (dependentsGraph storeAB)"
    using storeAB_committed by (rule mp)
  have "(''A1'', ''B1'') \<in> ?G"
    by (simp add: mem_graph dependenciesOrEmpty_def storeAB_def)
  moreover have "(''B1'', ''A1'') \<in> ?G"
    by (simp add: engine_defs)
  ultimately have "(''A1'', ''A1'') \<in> ?G\<^sup>+"
    by (rule trancl.intros(2)[OF r_into_trancl])
  have cyc: "\<not> acyclic ?G"
  proof
    assume "acyclic ?G"
    then have "\<forall>x. (x, x) \<notin> ?G\<^sup>+"
      unfolding acyclic_def .
    then have "(''A1'', ''A1'') \<notin> ?G\<^sup>+"
      by (rule spec)
    with \<open>(''A1'', ''A1'') \<in> ?G\<^sup>+\<close> show False
      by simp
  qed
  from T[THEN conjunct2] have "acyclic (dependentsGraph storeAB) \<and> \<not> acyclic ?G
      \<and> updateCellAndDependents sampleEvaluate (Suc (Suc (Suc 0))) ''A1'' ''=B1'' storeAB = Inr rejectedStore
      \<longrightarrow> map_option val (rejectedStore ''A1'') = Some (Str ''#CIRCULAR'')
          \<and> dependentsGraph rejectedStore = dependentsGraph storeAB
          \<and> (\<forall>k. k \<noteq> ''A1'' \<longrightarrow> rejectedStore k = storeAB k)"
    by (rule conjunct1)
  moreover have "acyclic (dependentsGraph storeAB) \<and> \<not> acyclic ?G
      \<and> updateCellAndDependents sampleEvaluate (Suc (Suc (Suc 0))) ''A1'' ''=B1'' storeAB = Inr rejectedStore"
    using acyc cyc rejected_commit by (intro conjI)
  ultimately have "map_option val (rejectedStore ''A1'') = Some (Str ''#CIRCULAR'')
          \<and> dependentsGraph rejectedStore = dependentsGraph storeAB
          \<and> (\<forall>k. k \<noteq> ''A1'' \<longrightarrow> rejectedStore k = storeAB k)"
    by (rule mp)
  then have "map_option val (rejectedStore ''A1'') = Some (Str ''#CIRCULAR'')"
    and "dependentsGraph rejectedStore = dependentsGraph storeAB"
    by (rule conjunct1, rule conjunct2[THEN conjunct1])
  with storeAB_committed acyc cyc rejected_commit show ?thesis
    by (intro conjI)
qed

section \<open>The rejected edit\<close>

text \<open>
  C6. When the cycle check fires for a reference of the new formula (a reference to the
  edited cell itself included), the commit returns the store it was given with one change:
  the edited cell has the value \<^verbatim>\<open>#CIRCULAR\<close> and the new formula. Its \<^verbatim>\<open>dependencies\<close> are
  the ones it had, every other cell is the one it was, and the graph has no new edge.
\<close>

theorem rejection_frame:
  "(firstTrue (\<lambda>parent. hasCircularDependency n startCellId parent allCells) (parentsOf newFormula)
      = Inr True
    \<longrightarrow> updateCellAndDependents evaluate (Suc n) startCellId newFormula allCells
        = Inr (allCells(startCellId \<mapsto> \<lparr>val = Str ''#CIRCULAR'', formula = newFormula,
                 dependencies = Some (dependenciesOrEmpty allCells startCellId)\<rparr>)))
   \<and> (updateCellAndDependents evaluate (Suc n) startCellId newFormula allCells = Inr r
      \<and> (startCellId \<in> set (parentsOf newFormula)
          \<or> (\<exists>parent\<in>set (parentsOf newFormula).
                hasCircularDependency n startCellId parent allCells = Inr True))
      \<longrightarrow> r = allCells(startCellId \<mapsto> \<lparr>val = Str ''#CIRCULAR'', formula = newFormula,
                 dependencies = Some (dependenciesOrEmpty allCells startCellId)\<rparr>)
          \<and> dependenciesOrEmpty r = dependenciesOrEmpty allCells
          \<and> dependentsGraph r = dependentsGraph allCells
          \<and> (\<forall>k. k \<noteq> startCellId \<longrightarrow> r k = allCells k))"
proof (intro conjI impI)
  assume "firstTrue (\<lambda>parent. hasCircularDependency n startCellId parent allCells)
            (parentsOf newFormula) = Inr True"
  then show "updateCellAndDependents evaluate (Suc n) startCellId newFormula allCells
        = Inr (allCells(startCellId \<mapsto> \<lparr>val = Str ''#CIRCULAR'', formula = newFormula,
                 dependencies = Some (dependenciesOrEmpty allCells startCellId)\<rparr>))"
    by simp
next
  assume a: "updateCellAndDependents evaluate (Suc n) startCellId newFormula allCells = Inr r
      \<and> (startCellId \<in> set (parentsOf newFormula)
          \<or> (\<exists>parent\<in>set (parentsOf newFormula).
                hasCircularDependency n startCellId parent allCells = Inr True))"
  then have upd: "updateCellAndDependents evaluate (Suc n) startCellId newFormula allCells = Inr r"
    by simp
  have "\<exists>p\<in>set (parentsOf newFormula). (startCellId, p) \<in> (dependentsGraph allCells)\<^sup>*"
  proof -
    from a consider "startCellId \<in> set (parentsOf newFormula)"
      | p where "p \<in> set (parentsOf newFormula)" "hasCircularDependency n startCellId p allCells = Inr True"
      by auto
    then show ?thesis
    proof cases
      case 1
      then show ?thesis by auto
    next
      case 2
      from hasCircularDependency_reaches[OF 2(2)] 2(1) show ?thesis
        by auto
    qed
  qed
  with upd have r: "r = allCells(startCellId \<mapsto> \<lparr>val = Str ''#CIRCULAR'', formula = newFormula,
                     dependencies = Some (dependenciesOrEmpty allCells startCellId)\<rparr>)"
    by (rule update_rejected)
  show "r = allCells(startCellId \<mapsto> \<lparr>val = Str ''#CIRCULAR'', formula = newFormula,
                     dependencies = Some (dependenciesOrEmpty allCells startCellId)\<rparr>)"
    by (rule r)
  show "dependenciesOrEmpty r = dependenciesOrEmpty allCells"
    unfolding r by (rule dependenciesOrEmpty_upd_same)
  show "dependentsGraph r = dependentsGraph allCells"
    unfolding r by (rule dependentsGraph_upd_same)
  show "\<forall>k. k \<noteq> startCellId \<longrightarrow> r k = allCells k"
    by (simp add: r)
qed

theorem rejection_frame_witness:
  "updateCellAndDependents sampleEvaluate (Suc (Suc (Suc 0))) ''A1'' ''=B1'' storeAB = Inr rejectedStore
   \<and> hasCircularDependency (Suc (Suc 0)) ''A1'' ''B1'' storeAB = Inr True
   \<and> rejectedStore ''B1'' = storeAB ''B1''
   \<and> dependenciesOrEmpty rejectedStore = dependenciesOrEmpty storeAB
   \<and> updateCellAndDependents sampleEvaluate (Suc (Suc 0)) ''A1'' ''=A1'' Map.empty = Inr selfStore
   \<and> map_option val (selfStore ''A1'') = Some (Str ''#CIRCULAR'')
   \<and> dependentsGraph selfStore = dependentsGraph Map.empty"
proof -
  have h: "hasCircularDependency (Suc (Suc 0)) ''A1'' ''B1'' storeAB = Inr True"
    by (simp add: engine_defs storeAB_def)
  have p: "''B1'' \<in> set (parentsOf ''=B1'')" "''A1'' \<in> set (parentsOf ''=A1'')"
    by (simp_all add: engine_defs)
  have "updateCellAndDependents sampleEvaluate (Suc (Suc (Suc 0))) ''A1'' ''=B1'' storeAB = Inr rejectedStore
      \<and> (''A1'' \<in> set (parentsOf ''=B1'')
          \<or> (\<exists>parent\<in>set (parentsOf ''=B1'').
                hasCircularDependency (Suc (Suc 0)) ''A1'' parent storeAB = Inr True))"
    using rejected_commit h p(1) by blast
  with rejection_frame[of "Suc (Suc 0)" "''A1''" storeAB "''=B1''" sampleEvaluate rejectedStore,
      THEN conjunct2]
  have 1: "dependenciesOrEmpty rejectedStore = dependenciesOrEmpty storeAB
          \<and> (\<forall>k. k \<noteq> ''A1'' \<longrightarrow> rejectedStore k = storeAB k)"
    by blast
  have "updateCellAndDependents sampleEvaluate (Suc (Suc 0)) ''A1'' ''=A1'' Map.empty = Inr selfStore
      \<and> (''A1'' \<in> set (parentsOf ''=A1'')
          \<or> (\<exists>parent\<in>set (parentsOf ''=A1'').
                hasCircularDependency (Suc 0) ''A1'' parent Map.empty = Inr True))"
    using self_commit p(2) by blast
  with rejection_frame[of "Suc 0" "''A1''" Map.empty "''=A1''" sampleEvaluate selfStore,
      THEN conjunct2]
  have 2: "dependentsGraph selfStore = dependentsGraph Map.empty"
    by blast
  have 3: "map_option val (selfStore ''A1'') = Some (Str ''#CIRCULAR'')"
    by (simp add: selfStore_def)
  from 1 have "rejectedStore ''B1'' = storeAB ''B1''"
    by simp
  with 1 2 3 h rejected_commit self_commit show ?thesis
    by (intro conjI) simp_all
qed

section \<open>Dependents are never removed\<close>

text \<open>
  C9. Whatever the edit, every cell keeps in the returned store all the dependents it had
  in the store the commit was given: a cell that stopped reading a parent stays in the
  \<^verbatim>\<open>dependencies\<close> of that parent.
\<close>

theorem dependents_only_grow:
  "updateCellAndDependents evaluate n startCellId newFormula allCells = Inr r \<Longrightarrow>
     set (dependenciesOrEmpty allCells k) \<subseteq> set (dependenciesOrEmpty r k)"
proof -
  assume "updateCellAndDependents evaluate n startCellId newFormula allCells = Inr r"
  then have "dependentsGraph allCells \<subseteq> dependentsGraph r"
    by (rule update_graph[THEN conjunct1])
  then show ?thesis
    by (auto simp: dependentsGraph_def)
qed

theorem dependents_only_grow_witness:
  "updateCellAndDependents sampleEvaluate (Suc (Suc 0)) ''B1'' ''7'' storeAB = Inr staleStore
   \<and> parentsOf ''7'' = []
   \<and> set (dependenciesOrEmpty storeAB ''A1'') \<subseteq> set (dependenciesOrEmpty staleStore ''A1'')
   \<and> dependenciesOrEmpty staleStore ''A1'' = [''B1'']"
proof -
  have "parentsOf ''7'' = []"
    by (simp add: engine_defs)
  moreover have "dependenciesOrEmpty staleStore ''A1'' = [''B1'']"
    by (simp add: engine_defs staleStore_def)
  ultimately show ?thesis
    using dependents_only_grow[OF stale_commit, of "''A1''"] stale_commit by (intro conjI)
qed

section \<open>Termination\<close>

lemma firstTrue_agree:
  assumes "firstTrue test xs \<noteq> Inl RangeError"
    and "\<And>x. x \<in> set xs \<Longrightarrow> test x \<noteq> Inl RangeError \<Longrightarrow> test' x = test x"
  shows "firstTrue test' xs = firstTrue test xs"
  using assms
proof (induction xs)
  case Nil
  then show ?case by simp
next
  case (Cons x xs)
  have tx: "test x \<noteq> Inl RangeError"
    using Cons.prems(1) by (auto split: sum.splits)
  then have eq: "test' x = test x"
    using Cons.prems(2) by simp
  show ?case
  proof (cases "test x")
    case (Inl e)
    then show ?thesis by (simp add: eq)
  next
    case (Inr b)
    show ?thesis
    proof (cases b)
      case True
      with Inr show ?thesis by (simp add: eq)
    next
      case False
      with Inr Cons.prems(1) have "firstTrue test xs \<noteq> Inl RangeError"
        by simp
      then have "firstTrue test' xs = firstTrue test xs"
        using Cons.IH Cons.prems(2) by simp
      with Inr False show ?thesis by (simp add: eq)
    qed
  qed
qed

lemma firstTrue_no_RangeError:
  "(\<And>x. x \<in> set xs \<Longrightarrow> test x \<noteq> Inl RangeError) \<Longrightarrow> firstTrue test xs \<noteq> Inl RangeError"
  by (induction xs) (auto split: sum.splits)

lemma hasCircularDependency_Suc:
  "hasCircularDependency n s t c \<noteq> Inl RangeError \<Longrightarrow>
     hasCircularDependency (Suc n) s t c = hasCircularDependency n s t c"
proof (induction n arbitrary: s)
  case 0
  then show ?case by simp
next
  case (Suc n)
  show ?case
  proof (cases "s = t")
    case True
    then show ?thesis by simp
  next
    case False
    with Suc.prems have
      "firstTrue (\<lambda>d. hasCircularDependency n d t c) (dependenciesOrEmpty c s) \<noteq> Inl RangeError"
      by simp
    then have "firstTrue (\<lambda>d. hasCircularDependency (Suc n) d t c) (dependenciesOrEmpty c s)
        = firstTrue (\<lambda>d. hasCircularDependency n d t c) (dependenciesOrEmpty c s)"
      by (rule firstTrue_agree) (rule Suc.IH)
    with False show ?thesis
      by simp
  qed
qed

lemma hasCircularDependency_mono:
  "hasCircularDependency n s t c \<noteq> Inl RangeError \<Longrightarrow> n \<le> m \<Longrightarrow>
     hasCircularDependency m s t c = hasCircularDependency n s t c"
proof (induction m)
  case 0
  then show ?case by simp
next
  case (Suc m)
  show ?case
  proof (cases "n = Suc m")
    case True
    then show ?thesis by simp
  next
    case False
    with Suc.prems have le: "n \<le> m" by simp
    with Suc have eq: "hasCircularDependency m s t c = hasCircularDependency n s t c"
      by simp
    with Suc.prems(1) have "hasCircularDependency m s t c \<noteq> Inl RangeError"
      by simp
    then have "hasCircularDependency (Suc m) s t c = hasCircularDependency m s t c"
      by (rule hasCircularDependency_Suc)
    with eq show ?thesis by simp
  qed
qed

lemma refreshChildren_agree:
  assumes "refreshChildren upd ks st \<noteq> Inl RangeError"
    and "\<And>k g st'. upd k g st' \<noteq> Inl RangeError \<Longrightarrow> upd' k g st' = upd k g st'"
  shows "refreshChildren upd' ks st = refreshChildren upd ks st"
  using assms(1)
proof (induction ks arbitrary: st)
  case Nil
  then show ?case by simp
next
  case (Cons k ks)
  show ?case
  proof (cases "st k")
    case None
    with Cons show ?thesis by simp
  next
    case (Some cd)
    with Cons.prems have ne: "upd k (formula cd) st \<noteq> Inl RangeError"
      by (auto split: sum.splits)
    then have eq: "upd' k (formula cd) st = upd k (formula cd) st"
      by (rule assms(2))
    show ?thesis
    proof (cases "upd k (formula cd) st")
      case (Inl e)
      with Some eq show ?thesis by simp
    next
      case (Inr r')
      with Some Cons.prems have "refreshChildren upd ks (st ++ r') \<noteq> Inl RangeError"
        by simp
      then have "refreshChildren upd' ks (st ++ r') = refreshChildren upd ks (st ++ r')"
        by (rule Cons.IH)
      with Some Inr eq show ?thesis by simp
    qed
  qed
qed

lemma update_Suc:
  "updateCellAndDependents ev (Suc n) s f c =
     (case firstTrue (\<lambda>p. hasCircularDependency n s p c) (parentsOf f) of
        Inl e \<Rightarrow> Inl e
      | Inr circular \<Rightarrow>
          if circular then
            Inr (c(s \<mapsto> \<lparr>val = Str ''#CIRCULAR'', formula = f,
                         dependencies = Some (dependenciesOrEmpty c s)\<rparr>))
          else
            (case addParents s (parentsOf f)
                    (c(s \<mapsto> \<lparr>val = calculateFormula ev f c, formula = f,
                              dependencies = Some (dependenciesOrEmpty c s)\<rparr>)) of
               Inl e \<Rightarrow> Inl e
             | Inr u \<Rightarrow>
                 refreshChildren (\<lambda>k g st. updateCellAndDependents ev n k g st)
                   (dependenciesOrEmpty u s) u))"
  by (simp add: Let_def split: sum.splits)

lemma update_fuel_Suc:
  "updateCellAndDependents ev n s f c \<noteq> Inl RangeError \<Longrightarrow>
     updateCellAndDependents ev (Suc n) s f c = updateCellAndDependents ev n s f c"
proof (induction n arbitrary: s f c)
  case 0
  then show ?case by simp
next
  case (Suc n)
  let ?check = "\<lambda>m. firstTrue (\<lambda>p. hasCircularDependency m s p c) (parentsOf f)"
  from Suc.prems have ne: "?check n \<noteq> Inl RangeError"
    unfolding update_Suc by (auto split: sum.splits)
  then have ceq: "?check (Suc n) = ?check n"
    by (rule firstTrue_agree) (rule hasCircularDependency_Suc)
  show ?case
  proof (cases "?check n")
    case (Inl e)
    then show ?thesis
      unfolding update_Suc[of ev "Suc n"] update_Suc[of ev n] ceq by simp
  next
    case (Inr circular)
    show ?thesis
    proof (cases circular)
      case True
      with Inr show ?thesis
        unfolding update_Suc[of ev "Suc n"] update_Suc[of ev n] ceq by simp
    next
      case False
      let ?u = "addParents s (parentsOf f)
                  (c(s \<mapsto> \<lparr>val = calculateFormula ev f c, formula = f,
                            dependencies = Some (dependenciesOrEmpty c s)\<rparr>))"
      show ?thesis
      proof (cases ?u)
        case (Inl e)
        with Inr False show ?thesis
          unfolding update_Suc[of ev "Suc n"] update_Suc[of ev n] ceq by simp
      next
        case u: (Inr u)
        with Inr False Suc.prems have
          "refreshChildren (\<lambda>k g st. updateCellAndDependents ev n k g st)
             (dependenciesOrEmpty u s) u \<noteq> Inl RangeError"
          unfolding update_Suc[of ev n] by simp
        then have "refreshChildren (\<lambda>k g st. updateCellAndDependents ev (Suc n) k g st)
             (dependenciesOrEmpty u s) u
           = refreshChildren (\<lambda>k g st. updateCellAndDependents ev n k g st)
             (dependenciesOrEmpty u s) u"
          by (rule refreshChildren_agree) (rule Suc.IH)
        with Inr False u show ?thesis
          unfolding update_Suc[of ev "Suc n"] update_Suc[of ev n] ceq by simp
      qed
    qed
  qed
qed

lemma update_fuel_mono:
  "updateCellAndDependents ev n s f c \<noteq> Inl RangeError \<Longrightarrow> n \<le> m \<Longrightarrow>
     updateCellAndDependents ev m s f c = updateCellAndDependents ev n s f c"
proof (induction m)
  case 0
  then show ?case by simp
next
  case (Suc m)
  show ?case
  proof (cases "n = Suc m")
    case True
    then show ?thesis by simp
  next
    case False
    with Suc.prems have le: "n \<le> m" by simp
    with Suc have eq: "updateCellAndDependents ev m s f c = updateCellAndDependents ev n s f c"
      by simp
    with Suc.prems(1) have "updateCellAndDependents ev m s f c \<noteq> Inl RangeError"
      by simp
    then have "updateCellAndDependents ev (Suc m) s f c = updateCellAndDependents ev m s f c"
      by (rule update_fuel_Suc)
    with eq show ?thesis by simp
  qed
qed

lemma fuel_for_list:
  fixes P :: "nat \<Rightarrow> 'a \<Rightarrow> bool"
  assumes "\<And>x. x \<in> set xs \<Longrightarrow> \<exists>n. P n x"
    and mono: "\<And>x n m. P n x \<Longrightarrow> n \<le> m \<Longrightarrow> P m x"
  shows "\<exists>N. \<forall>x\<in>set xs. P N x"
  using assms(1)
proof (induction xs)
  case Nil
  then show ?case by simp
next
  case (Cons x xs)
  then obtain N where N: "\<forall>y\<in>set xs. P N y"
    by auto
  from Cons.prems obtain n where n: "P n x"
    by auto
  have "P (max n N) x"
    using n by (rule mono) simp
  moreover have "\<forall>y\<in>set xs. P (max n N) y"
    using N mono by (meson max.cobounded2)
  ultimately show ?case
    by auto
qed

lemma child_descendants_psubset:
  assumes "acyclic G" and "(s, k) \<in> G"
  shows "G\<^sup>* `` {k} \<subset> G\<^sup>* `` {s}"
proof
  show "G\<^sup>* `` {k} \<subseteq> G\<^sup>* `` {s}"
    using assms(2) by (auto intro: converse_rtrancl_into_rtrancl)
  have "s \<in> G\<^sup>* `` {s}"
    by simp
  moreover have "s \<notin> G\<^sup>* `` {k}"
  proof
    assume "s \<in> G\<^sup>* `` {k}"
    then have "(k, s) \<in> G\<^sup>*"
      by simp
    with assms(2) have "(s, s) \<in> G\<^sup>+"
      by (rule rtrancl_into_trancl2)
    with assms(1) show False
      by (simp add: acyclic_def)
  qed
  ultimately show "G\<^sup>* `` {k} \<noteq> G\<^sup>* `` {s}"
    by blast
qed

lemma hasCircularDependency_terminates_aux:
  assumes "finite A" and acyc: "acyclic (dependentsGraph c)"
  shows "descendants c s = A \<Longrightarrow> \<exists>n. hasCircularDependency n s t c \<noteq> Inl RangeError"
  using assms(1)
proof (induction A arbitrary: s rule: finite_psubset_induct)
  case (psubset A)
  have "\<exists>n. hasCircularDependency n d t c \<noteq> Inl RangeError"
    if "d \<in> set (dependenciesOrEmpty c s)" for d
  proof -
    from that have "(s, d) \<in> dependentsGraph c"
      by (simp add: mem_graph)
    with acyc have "descendants c d \<subset> descendants c s"
      unfolding descendants_def by (rule child_descendants_psubset)
    then have "descendants c d \<subset> A"
      using psubset.prems by simp
    then show ?thesis
      using psubset.IH by blast
  qed
  then have "\<exists>N. \<forall>d\<in>set (dependenciesOrEmpty c s). hasCircularDependency N d t c \<noteq> Inl RangeError"
  proof (rule fuel_for_list)
    fix d n m
    assume "hasCircularDependency n d t c \<noteq> Inl RangeError" and "n \<le> m"
    then show "hasCircularDependency m d t c \<noteq> Inl RangeError"
      using hasCircularDependency_mono by metis
  qed
  then obtain N where "\<forall>d\<in>set (dependenciesOrEmpty c s). hasCircularDependency N d t c \<noteq> Inl RangeError"
    by blast
  then have "firstTrue (\<lambda>d. hasCircularDependency N d t c) (dependenciesOrEmpty c s) \<noteq> Inl RangeError"
    using firstTrue_no_RangeError[of "dependenciesOrEmpty c s" "\<lambda>d. hasCircularDependency N d t c"]
    by blast
  then have "hasCircularDependency (Suc N) s t c \<noteq> Inl RangeError"
    by simp
  then show ?case
    by blast
qed

lemma hasCircularDependency_terminates:
  "finite (descendants c s) \<Longrightarrow> acyclic (dependentsGraph c) \<Longrightarrow>
     \<exists>n. hasCircularDependency n s t c \<noteq> Inl RangeError"
  using hasCircularDependency_terminates_aux by blast

lemma pushDependent_error: "pushDependent s p u = Inl e \<Longrightarrow> e = TypeError"
  by (auto simp: pushDependent_def split: option.splits)

lemma addParents_error: "addParents s ps u = Inl e \<Longrightarrow> e = TypeError"
  by (induction ps arbitrary: u) (auto split: sum.splits dest: pushDependent_error)

lemma refreshChildren_terminates:
  assumes IH: "\<And>k g st. descendants st k \<subset> A \<Longrightarrow> acyclic (dependentsGraph st)
                 \<Longrightarrow> \<exists>n. updateCellAndDependents ev n k g st \<noteq> Inl RangeError"
    and sA: "s \<in> A"
  shows "set ks \<subseteq> set (dependenciesOrEmpty st s) \<Longrightarrow> acyclic (dependentsGraph st)
           \<Longrightarrow> descendants st s \<subseteq> A
           \<Longrightarrow> \<exists>N. refreshChildren (\<lambda>k g st. updateCellAndDependents ev N k g st) ks st
                  \<noteq> Inl RangeError"
proof (induction ks arbitrary: st)
  case Nil
  then show ?case by simp
next
  case (Cons k ks)
  let ?G = "dependentsGraph st"
  have sk: "(s, k) \<in> ?G"
    using Cons.prems(1) by (simp add: mem_graph)
  show ?case
  proof (cases "st k")
    case None
    have "\<exists>N. refreshChildren (\<lambda>k g st. updateCellAndDependents ev N k g st) ks st \<noteq> Inl RangeError"
      using Cons.prems by (intro Cons.IH) simp_all
    with None show ?thesis
      by simp
  next
    case (Some cd)
    have "descendants st k \<subset> descendants st s"
      unfolding descendants_def using Cons.prems(2) sk by (rule child_descendants_psubset)
    with Cons.prems(3) have "descendants st k \<subset> A"
      by auto
    then obtain n1 where n1: "updateCellAndDependents ev n1 k (formula cd) st \<noteq> Inl RangeError"
      using IH Cons.prems(2) by blast
    show ?thesis
    proof (cases "updateCellAndDependents ev n1 k (formula cd) st")
      case (Inl e)
      with n1 Some have "refreshChildren (\<lambda>k g st. updateCellAndDependents ev n1 k g st) (k # ks) st
          \<noteq> Inl RangeError"
        by simp
      then show ?thesis
        by blast
    next
      case (Inr r')
      note G = update_graph[OF Inr]
      have g1: "?G \<subseteq> dependentsGraph r'"
        using G by (rule conjunct1)
      have g2: "dependentsGraph r' \<subseteq> ?G \<union> {(p, d). (k, d) \<in> ?G\<^sup>*}"
        using G by (rule conjunct2[THEN conjunct1])
      have acyc': "acyclic (dependentsGraph r')"
        using G Cons.prems(2) by simp
      have g2': "dependentsGraph r' \<subseteq> ?G \<union> {(p, d). (s, d) \<in> ?G\<^sup>*}"
      proof
        fix e assume "e \<in> dependentsGraph r'"
        with g2 have "e \<in> ?G \<or> e \<in> {(p, d). (k, d) \<in> ?G\<^sup>*}"
          by auto
        then show "e \<in> ?G \<union> {(p, d). (s, d) \<in> ?G\<^sup>*}"
          using sk by (auto intro: converse_rtrancl_into_rtrancl)
      qed
      have "descendants r' s \<subseteq> descendants st s"
        unfolding descendants_def using reach_edges_into_descendants[OF g2'] by auto
      with Cons.prems(3) have d': "descendants r' s \<subseteq> A"
        by simp
      have "set (dependenciesOrEmpty st s) \<subseteq> set (dependenciesOrEmpty r' s)"
        using g1 by (auto simp: dependentsGraph_def)
      with Cons.prems(1) have ks': "set ks \<subseteq> set (dependenciesOrEmpty r' s)"
        by auto
      from Cons.IH[OF ks' acyc' d'] obtain N where
        N: "refreshChildren (\<lambda>k g st. updateCellAndDependents ev N k g st) ks r' \<noteq> Inl RangeError"
        by blast
      let ?M = "max n1 N"
      have u: "updateCellAndDependents ev ?M k (formula cd) st = Inr r'"
        using update_fuel_mono[OF n1, of ?M] Inr by simp
      have "refreshChildren (\<lambda>k g st. updateCellAndDependents ev ?M k g st) ks r'
          = refreshChildren (\<lambda>k g st. updateCellAndDependents ev N k g st) ks r'"
        using N by (rule refreshChildren_agree) (rule update_fuel_mono, simp_all)
      with N have "refreshChildren (\<lambda>k g st. updateCellAndDependents ev ?M k g st) ks r'
          \<noteq> Inl RangeError"
        by simp
      with Some u have "refreshChildren (\<lambda>k g st. updateCellAndDependents ev ?M k g st) (k # ks) st
          \<noteq> Inl RangeError"
        by (simp add: update_merge[OF Inr])
      then show ?thesis
        by blast
    qed
  qed
qed

lemma update_terminates_aux:
  assumes "finite A"
  shows "descendants c s = A \<Longrightarrow> acyclic (dependentsGraph c)
           \<Longrightarrow> \<exists>n. updateCellAndDependents ev n s f c \<noteq> Inl RangeError"
  using assms
proof (induction A arbitrary: c s f rule: finite_psubset_induct)
  case (psubset A)
  let ?E = "dependentsGraph c"
  have fin: "finite (descendants c s)"
    using psubset.hyps psubset.prems by simp
  have "\<exists>N. \<forall>p\<in>set (parentsOf f). hasCircularDependency N s p c \<noteq> Inl RangeError"
  proof (rule fuel_for_list)
    fix p
    show "\<exists>n. hasCircularDependency n s p c \<noteq> Inl RangeError"
      using fin psubset.prems(2) by (rule hasCircularDependency_terminates)
  next
    fix p n m
    assume "hasCircularDependency n s p c \<noteq> Inl RangeError" and "n \<le> m"
    then show "hasCircularDependency m s p c \<noteq> Inl RangeError"
      using hasCircularDependency_mono by metis
  qed
  then obtain N1 where N1: "\<forall>p\<in>set (parentsOf f). hasCircularDependency N1 s p c \<noteq> Inl RangeError"
    by blast
  let ?check = "\<lambda>m. firstTrue (\<lambda>p. hasCircularDependency m s p c) (parentsOf f)"
  have chk: "?check N1 \<noteq> Inl RangeError"
    using N1 firstTrue_no_RangeError[of "parentsOf f" "\<lambda>p. hasCircularDependency N1 s p c"]
    by blast
  show ?case
  proof (cases "?check N1")
    case (Inl e)
    with chk have "updateCellAndDependents ev (Suc N1) s f c \<noteq> Inl RangeError"
      unfolding update_Suc by simp
    then show ?thesis by blast
  next
    case (Inr circular)
    show ?thesis
    proof (cases circular)
      case True
      with Inr have "updateCellAndDependents ev (Suc N1) s f c \<noteq> Inl RangeError"
        unfolding update_Suc by simp
      then show ?thesis by blast
    next
      case False
      let ?c1 = "c(s \<mapsto> \<lparr>val = calculateFormula ev f c, formula = f,
                          dependencies = Some (dependenciesOrEmpty c s)\<rparr>)"
      show ?thesis
      proof (cases "addParents s (parentsOf f) ?c1")
        case (Inl e)
        then have "e = TypeError"
          by (rule addParents_error)
        with Inl Inr False have "updateCellAndDependents ev (Suc N1) s f c \<noteq> Inl RangeError"
          unfolding update_Suc by simp
        then show ?thesis by blast
      next
        case u: (Inr u)
        let ?U = "dependentsGraph u"
        have gu: "?U = ?E \<union> set (parentsOf f) \<times> {s}"
          using addParents_graph[OF u] by (simp add: dependentsGraph_upd_same)
        have unreached: "\<forall>p\<in>set (parentsOf f). (s, p) \<notin> ?E\<^sup>*"
        proof
          fix p assume "p \<in> set (parentsOf f)"
          with Inr False have "hasCircularDependency N1 s p c = Inr False"
            using firstTrue_False by fastforce
          from hasCircularDependency_reaches[OF this] show "(s, p) \<notin> ?E\<^sup>*"
            by simp
        qed
        have acyc_u: "acyclic ?U"
          unfolding gu using psubset.prems(2) unreached by (rule acyclic_edges_into_start)
        have "descendants u s \<subseteq> descendants c s"
          unfolding descendants_def gu using reach_edges_into_start by fastforce
        then have desc_u: "descendants u s \<subseteq> A"
          using psubset.prems(1) by simp
        have sA: "s \<in> A"
          using psubset.prems(1) by (auto simp: descendants_def)
        have "\<exists>N. refreshChildren (\<lambda>k g st. updateCellAndDependents ev N k g st)
                 (dependenciesOrEmpty u s) u \<noteq> Inl RangeError"
        proof (rule refreshChildren_terminates[where A = A and s = s])
          fix k g st
          assume "descendants st k \<subset> A" and "acyclic (dependentsGraph st)"
          then show "\<exists>n. updateCellAndDependents ev n k g st \<noteq> Inl RangeError"
            using psubset.IH by blast
        qed (use sA acyc_u desc_u in simp_all)
        then obtain N2 where N2: "refreshChildren (\<lambda>k g st. updateCellAndDependents ev N2 k g st)
                 (dependenciesOrEmpty u s) u \<noteq> Inl RangeError"
          by blast
        let ?M = "max N1 N2"
        have "?check ?M = ?check N1"
          using chk by (rule firstTrue_agree) (rule hasCircularDependency_mono, simp_all)
        with Inr False have c: "?check ?M = Inr False"
          by simp
        have "refreshChildren (\<lambda>k g st. updateCellAndDependents ev ?M k g st)
                 (dependenciesOrEmpty u s) u
            = refreshChildren (\<lambda>k g st. updateCellAndDependents ev N2 k g st)
                 (dependenciesOrEmpty u s) u"
          using N2 by (rule refreshChildren_agree) (rule update_fuel_mono, simp_all)
        with N2 c u have "updateCellAndDependents ev (Suc ?M) s f c \<noteq> Inl RangeError"
          unfolding update_Suc by simp
        then show ?thesis by blast
      qed
    qed
  qed
qed

lemma dependencies_in_dom: "y \<in> set (dependenciesOrEmpty c x) \<Longrightarrow> x \<in> dom c"
  by (cases "c x") (auto simp: dependenciesOrEmpty_def)

lemma finite_dependentsGraph: "finite (dom c) \<Longrightarrow> finite (dependentsGraph c)"
proof -
  assume fin: "finite (dom c)"
  have "dependentsGraph c \<subseteq> (\<Union>k\<in>dom c. {k} \<times> set (dependenciesOrEmpty c k))"
    using dependencies_in_dom by (auto simp: dependentsGraph_def)
  moreover have "finite (\<Union>k\<in>dom c. {k} \<times> set (dependenciesOrEmpty c k))"
    using fin by simp
  ultimately show ?thesis
    by (rule finite_subset)
qed

lemma finite_descendants: "finite (dom c) \<Longrightarrow> finite (descendants c s)"
proof -
  assume "finite (dom c)"
  then have "finite (dependentsGraph c)"
    by (rule finite_dependentsGraph)
  then have "finite (Range (dependentsGraph c))"
    by (simp add: finite_Range)
  moreover have "descendants c s \<subseteq> insert s (Range (dependentsGraph c))"
    unfolding descendants_def by (auto elim: rtranclE)
  ultimately show ?thesis
    by (meson finite_insert finite_subset)
qed

lemma firstTrue_error:
  "firstTrue test xs = Inl e \<Longrightarrow> \<exists>x\<in>set xs. test x = Inl e"
  by (induction xs) (auto split: sum.splits if_splits)

lemma hasCircularDependency_error:
  "hasCircularDependency n s t c = Inl e \<Longrightarrow> e = RangeError"
proof (induction n arbitrary: s)
  case 0
  then show ?case by simp
next
  case (Suc n)
  then have "firstTrue (\<lambda>d. hasCircularDependency n d t c) (dependenciesOrEmpty c s) = Inl e"
    by (simp split: if_splits)
  then obtain d where "hasCircularDependency n d t c = Inl e"
    using firstTrue_error by fastforce
  then show ?case
    by (rule Suc.IH)
qed

lemma hasCircularDependency_returns:
  "hasCircularDependency n s t c \<noteq> Inl RangeError \<Longrightarrow> \<exists>b. hasCircularDependency n s t c = Inr b"
  using hasCircularDependency_error by (cases "hasCircularDependency n s t c") auto

lemma pushDependent_wellFormed:
  assumes "wellFormed u"
  shows "\<exists>u'. pushDependent s p (materialize p u) = Inr u' \<and> wellFormed u'"
proof -
  have wm: "wellFormed (materialize p u)"
    using assms by (auto simp: wellFormed_def materialize_def emptyCell_def split: option.splits)
  obtain x where x: "materialize p u p = Some x"
    by (cases "u p") (auto simp: materialize_def)
  with wm obtain ds where ds: "dependencies x = Some ds"
    by (auto simp: wellFormed_def)
  let ?u' = "if s \<in> set ds then materialize p u
             else (materialize p u)(p \<mapsto> x\<lparr>dependencies := Some (ds @ [s])\<rparr>)"
  have "pushDependent s p (materialize p u) = Inr ?u'"
    using x ds by (simp add: pushDependent_def)
  moreover have "wellFormed ?u'"
    using wm by (auto simp: wellFormed_def)
  ultimately show ?thesis
    by blast
qed

lemma addParents_wellFormed:
  "wellFormed u \<Longrightarrow> \<exists>u'. addParents s ps u = Inr u' \<and> wellFormed u'"
proof (induction ps arbitrary: u)
  case Nil
  then show ?case by simp
next
  case (Cons p ps)
  from pushDependent_wellFormed[OF Cons.prems, of s p] obtain u1 where
    u1: "pushDependent s p (materialize p u) = Inr u1" "wellFormed u1"
    by blast
  from Cons.IH[OF u1(2)] obtain u' where "addParents s ps u1 = Inr u'" "wellFormed u'"
    by blast
  with u1(1) show ?case
    by simp
qed

lemma wellFormed_upd:
  "wellFormedExcept s c \<Longrightarrow> wellFormed (c(s \<mapsto> \<lparr>val = v, formula = f, dependencies = Some ds\<rparr>))"
  by (auto simp: wellFormed_def wellFormedExcept_def)

lemma wellFormed_Except: "wellFormed c \<Longrightarrow> wellFormedExcept s c"
  by (simp add: wellFormed_def wellFormedExcept_def)

lemma update_wellFormed:
  "updateCellAndDependents ev n s f c = Inr r \<Longrightarrow> wellFormedExcept s c \<Longrightarrow> wellFormed r"
proof (induction n arbitrary: s f c r)
  case 0
  then show ?case by simp
next
  case (Suc n)
  from Suc.prems(1) show ?case
  proof (cases rule: update_Suc_cases)
    case circular
    show ?thesis
      unfolding circular(2) using Suc.prems(2) by (rule wellFormed_upd)
  next
    case (computed u)
    have "wellFormed (c(s \<mapsto> \<lparr>val = calculateFormula ev f c, formula = f,
                          dependencies = Some (dependenciesOrEmpty c s)\<rparr>))"
      using Suc.prems(2) by (rule wellFormed_upd)
    from addParents_wellFormed[OF this, of s "parentsOf f"] computed(2) have wu: "wellFormed u"
      by auto
    show ?thesis
    proof (rule refreshChildren_update_invariant[OF computed(3), where I = wellFormed])
      show "wellFormed u" by (rule wu)
    next
      fix k cd st' r'
      assume "wellFormed st'" and "updateCellAndDependents ev n k (formula cd) st' = Inr r'"
      then show "wellFormed r'"
        using Suc.IH wellFormed_Except by blast
    qed
  qed
qed

lemma refreshChildren_no_TypeError:
  assumes "\<And>k g st. wellFormed st \<Longrightarrow> updateCellAndDependents ev n k g st \<noteq> Inl TypeError"
  shows "wellFormed st \<Longrightarrow>
     refreshChildren (\<lambda>k g st. updateCellAndDependents ev n k g st) ks st \<noteq> Inl TypeError"
proof (induction ks arbitrary: st)
  case Nil
  then show ?case by simp
next
  case (Cons k ks)
  show ?case
  proof (cases "st k")
    case None
    with Cons show ?thesis by simp
  next
    case (Some cd)
    show ?thesis
    proof (cases "updateCellAndDependents ev n k (formula cd) st")
      case (Inl e)
      with assms[OF Cons.prems, of k "formula cd"] Some show ?thesis
        by simp
    next
      case (Inr r')
      then have "wellFormed r'"
        using Cons.prems wellFormed_Except update_wellFormed by blast
      then have "refreshChildren (\<lambda>k g st. updateCellAndDependents ev n k g st) ks r' \<noteq> Inl TypeError"
        by (rule Cons.IH)
      with Some Inr show ?thesis
        by (simp add: update_merge[OF Inr])
    qed
  qed
qed

lemma update_no_TypeError:
  "wellFormedExcept s c \<Longrightarrow> updateCellAndDependents ev n s f c \<noteq> Inl TypeError"
proof (induction n arbitrary: s f c)
  case 0
  then show ?case by simp
next
  case (Suc n)
  let ?check = "firstTrue (\<lambda>p. hasCircularDependency n s p c) (parentsOf f)"
  show ?case
  proof (cases ?check)
    case (Inl e)
    then obtain p where "hasCircularDependency n s p c = Inl e"
      using firstTrue_error by fastforce
    then have "e = RangeError"
      by (rule hasCircularDependency_error)
    with Inl show ?thesis
      unfolding update_Suc by simp
  next
    case (Inr circular)
    show ?thesis
    proof (cases circular)
      case True
      with Inr show ?thesis
        unfolding update_Suc by simp
    next
      case False
      have "wellFormed (c(s \<mapsto> \<lparr>val = calculateFormula ev f c, formula = f,
                          dependencies = Some (dependenciesOrEmpty c s)\<rparr>))"
        using Suc.prems by (rule wellFormed_upd)
      from addParents_wellFormed[OF this, of s "parentsOf f"] obtain u where
        u: "addParents s (parentsOf f) (c(s \<mapsto> \<lparr>val = calculateFormula ev f c, formula = f,
                          dependencies = Some (dependenciesOrEmpty c s)\<rparr>)) = Inr u"
        and wu: "wellFormed u"
        by blast
      have "refreshChildren (\<lambda>k g st. updateCellAndDependents ev n k g st)
              (dependenciesOrEmpty u s) u \<noteq> Inl TypeError"
        using wu
      proof (rule refreshChildren_no_TypeError[rotated])
        fix k g st
        assume "wellFormed st"
        then have "wellFormedExcept k st"
          by (rule wellFormed_Except)
        then show "updateCellAndDependents ev n k g st \<noteq> Inl TypeError"
          by (rule Suc.IH)
      qed
      with Inr False u show ?thesis
        unfolding update_Suc by simp
    qed
  qed
qed

text \<open>
  C8. On a finite store whose graph of dependents is acyclic, a commit terminates: with
  enough stack the cycle detector returns its answer, and \<^verbatim>\<open>updateCellAndDependents\<close> does
  not run out of stack (every loop of the model goes through a finite list, so the number
  of recursive calls is finite). When every cell but the edited one has its
  \<^verbatim>\<open>dependencies\<close> field, the commit returns a store.
\<close>

theorem commit_terminates:
  assumes "finite (dom allCells)" and "acyclic (dependentsGraph allCells)"
  shows "\<exists>n. \<forall>m\<ge>n.
           (\<exists>b. hasCircularDependency m startCellId targetCell allCells = Inr b)
           \<and> updateCellAndDependents evaluate m startCellId newFormula allCells \<noteq> Inl RangeError
           \<and> (wellFormedExcept startCellId allCells
                \<longrightarrow> (\<exists>r. updateCellAndDependents evaluate m startCellId newFormula allCells = Inr r))"
proof -
  have fin: "finite (descendants allCells startCellId)"
    using assms(1) by (rule finite_descendants)
  from fin assms(2) obtain n1 where
    n1: "hasCircularDependency n1 startCellId targetCell allCells \<noteq> Inl RangeError"
    using hasCircularDependency_terminates by blast
  from fin assms(2) obtain n2 where
    n2: "updateCellAndDependents evaluate n2 startCellId newFormula allCells \<noteq> Inl RangeError"
    using update_terminates_aux by blast
  have "(\<exists>b. hasCircularDependency m startCellId targetCell allCells = Inr b)
      \<and> updateCellAndDependents evaluate m startCellId newFormula allCells \<noteq> Inl RangeError
      \<and> (wellFormedExcept startCellId allCells
           \<longrightarrow> (\<exists>r. updateCellAndDependents evaluate m startCellId newFormula allCells = Inr r))"
    if m: "max n1 n2 \<le> m" for m
  proof -
    have h: "hasCircularDependency m startCellId targetCell allCells \<noteq> Inl RangeError"
      using hasCircularDependency_mono[OF n1, of m] n1 m by simp
    have u: "updateCellAndDependents evaluate m startCellId newFormula allCells \<noteq> Inl RangeError"
      using update_fuel_mono[OF n2, of m] n2 m by simp
    have "\<exists>r. updateCellAndDependents evaluate m startCellId newFormula allCells = Inr r"
      if "wellFormedExcept startCellId allCells"
    proof (cases "updateCellAndDependents evaluate m startCellId newFormula allCells")
      case (Inl e)
      with u update_no_TypeError[OF that, of evaluate m newFormula] show ?thesis
        by (cases e) simp_all
    next
      case (Inr r)
      then show ?thesis by simp
    qed
    with h u show ?thesis
      using hasCircularDependency_returns by blast
  qed
  then show ?thesis
    by blast
qed

lemma storeAB_finite_acyclic: "finite (dom storeAB)" "acyclic (dependentsGraph storeAB)"
proof -
  show "finite (dom storeAB)"
    by (simp add: storeAB_def)
  show "acyclic (dependentsGraph storeAB)"
    using storeAB_committed by (rule committed_acyclic)
qed

theorem commit_terminates_witness:
  "finite (dom storeAB) \<and> acyclic (dependentsGraph storeAB)
   \<and> wellFormedExcept ''A1'' storeAB
   \<and> (\<exists>n. \<forall>m\<ge>n.
         (\<exists>b. hasCircularDependency m ''A1'' ''B1'' storeAB = Inr b)
         \<and> updateCellAndDependents sampleEvaluate m ''A1'' ''=B1'' storeAB \<noteq> Inl RangeError
         \<and> (\<exists>r. updateCellAndDependents sampleEvaluate m ''A1'' ''=B1'' storeAB = Inr r))"
proof -
  have w: "wellFormedExcept ''A1'' storeAB"
    by (simp add: wellFormedExcept_def storeAB_def)
  from commit_terminates[OF storeAB_finite_acyclic, of "''A1''" "''B1''" sampleEvaluate "''=B1''"]
  obtain n where "\<forall>m\<ge>n.
         (\<exists>b. hasCircularDependency m ''A1'' ''B1'' storeAB = Inr b)
         \<and> updateCellAndDependents sampleEvaluate m ''A1'' ''=B1'' storeAB \<noteq> Inl RangeError
         \<and> (wellFormedExcept ''A1'' storeAB
              \<longrightarrow> (\<exists>r. updateCellAndDependents sampleEvaluate m ''A1'' ''=B1'' storeAB = Inr r))"
    by blast
  with w have "\<forall>m\<ge>n.
         (\<exists>b. hasCircularDependency m ''A1'' ''B1'' storeAB = Inr b)
         \<and> updateCellAndDependents sampleEvaluate m ''A1'' ''=B1'' storeAB \<noteq> Inl RangeError
         \<and> (\<exists>r. updateCellAndDependents sampleEvaluate m ''A1'' ''=B1'' storeAB = Inr r)"
    by simp
  with w storeAB_finite_acyclic show ?thesis
    by blast
qed

text \<open>
  C3, as the code has it. Whenever the cycle detector returns, it returns \<^verbatim>\<open>true\<close> exactly
  when the candidate parent is the edited cell or can be reached from the edited cell along
  edges of dependents: the search goes from the edited cell to the candidate parent. On a
  finite store with an acyclic graph it returns, given enough stack.
\<close>

theorem cycle_detector_reachability:
  "(hasCircularDependency n editedCell candidateParent allCells = Inr b
      \<longrightarrow> b = (candidateParent = editedCell
                \<or> (editedCell, candidateParent) \<in> (dependentsGraph allCells)\<^sup>+))
   \<and> (finite (dom allCells) \<and> acyclic (dependentsGraph allCells)
      \<longrightarrow> (\<exists>n. \<forall>m\<ge>n. \<exists>b. hasCircularDependency m editedCell candidateParent allCells = Inr b))"
proof (intro conjI impI)
  assume "hasCircularDependency n editedCell candidateParent allCells = Inr b"
  then have "b = ((editedCell, candidateParent) \<in> (dependentsGraph allCells)\<^sup>*)"
    by (rule hasCircularDependency_reaches)
  then show "b = (candidateParent = editedCell
                \<or> (editedCell, candidateParent) \<in> (dependentsGraph allCells)\<^sup>+)"
    by (auto simp: rtrancl_eq_or_trancl)
next
  assume a: "finite (dom allCells) \<and> acyclic (dependentsGraph allCells)"
  then have "finite (descendants allCells editedCell)"
    using finite_descendants by blast
  with a obtain n1 where
    n1: "hasCircularDependency n1 editedCell candidateParent allCells \<noteq> Inl RangeError"
    using hasCircularDependency_terminates by blast
  have "\<exists>b. hasCircularDependency m editedCell candidateParent allCells = Inr b" if "n1 \<le> m" for m
    using hasCircularDependency_mono[OF n1 that] n1 hasCircularDependency_returns by metis
  then show "\<exists>n. \<forall>m\<ge>n. \<exists>b. hasCircularDependency m editedCell candidateParent allCells = Inr b"
    by blast
qed

theorem cycle_detector_reachability_witness:
  "hasCircularDependency (Suc (Suc 0)) ''A1'' ''B1'' storeAB = Inr True
   \<and> (''A1'', ''B1'') \<in> (dependentsGraph storeAB)\<^sup>+
   \<and> finite (dom storeAB) \<and> acyclic (dependentsGraph storeAB)
   \<and> (\<exists>n. \<forall>m\<ge>n. \<exists>b. hasCircularDependency m ''B1'' ''A1'' storeAB = Inr b)"
proof -
  have h: "hasCircularDependency (Suc (Suc 0)) ''A1'' ''B1'' storeAB = Inr True"
    by (simp add: dependenciesOrEmpty_def storeAB_def)
  from cycle_detector_reachability[of "Suc (Suc 0)" "''A1''" "''B1''" storeAB True] h
  have "(''A1'', ''B1'') \<in> (dependentsGraph storeAB)\<^sup>+"
    by simp
  moreover from cycle_detector_reachability[of 0 "''B1''" "''A1''" storeAB True]
    storeAB_finite_acyclic
  have "\<exists>n. \<forall>m\<ge>n. \<exists>b. hasCircularDependency m ''B1'' ''A1'' storeAB = Inr b"
    by blast
  ultimately show ?thesis
    using h storeAB_finite_acyclic by blast
qed

text \<open>
  C3 states the opposite direction: true exactly when the edited cell can be reached from
  the candidate parent. In the store of the first scenario (\<open>B1\<close> reads \<open>A1\<close>) the detector
  answers \<^verbatim>\<open>true\<close> for the edited cell \<open>A1\<close> and the candidate parent \<open>B1\<close>, and \<open>A1\<close> cannot
  be reached from \<open>B1\<close>.
\<close>

theorem cycle_detector_direction_counterexample:
  "hasCircularDependency (Suc (Suc 0)) ''A1'' ''B1'' storeAB = Inr True
   \<and> \<not> (''B1'' = ''A1'' \<or> (''B1'', ''A1'') \<in> (dependentsGraph storeAB)\<^sup>+)"
proof -
  have "(''B1'', ''A1'') \<notin> (dependentsGraph storeAB)\<^sup>+"
  proof
    assume "(''B1'', ''A1'') \<in> (dependentsGraph storeAB)\<^sup>+"
    then obtain z where "(''B1'', z) \<in> dependentsGraph storeAB"
      by (auto elim: converse_tranclE)
    then show False
      by (simp add: mem_graph dependenciesOrEmpty_def storeAB_def)
  qed
  moreover have "hasCircularDependency (Suc (Suc 0)) ''A1'' ''B1'' storeAB = Inr True"
    by (simp add: dependenciesOrEmpty_def storeAB_def)
  ultimately show ?thesis
    by simp
qed

section \<open>Invariants of the committed stores\<close>

lemma update_invariant_rule:
  assumes upd: "updateCellAndDependents ev n s f c = Inr r"
    and pre: "P s f c"
    and circ: "\<And>s f c. P s f c \<Longrightarrow> \<exists>p\<in>set (parentsOf f). (s, p) \<in> (dependentsGraph c)\<^sup>*
        \<Longrightarrow> I (c(s \<mapsto> \<lparr>val = Str ''#CIRCULAR'', formula = f,
                         dependencies = Some (dependenciesOrEmpty c s)\<rparr>))"
    and comp: "\<And>s f c u. P s f c \<Longrightarrow> \<forall>p\<in>set (parentsOf f). (s, p) \<notin> (dependentsGraph c)\<^sup>*
        \<Longrightarrow> addParents s (parentsOf f)
              (c(s \<mapsto> \<lparr>val = calculateFormula ev f c, formula = f,
                       dependencies = Some (dependenciesOrEmpty c s)\<rparr>)) = Inr u
        \<Longrightarrow> I u"
    and child: "\<And>st k cd. I st \<Longrightarrow> st k = Some cd \<Longrightarrow> P k (formula cd) st"
  shows "I r"
  using upd pre
proof (induction n arbitrary: s f c r)
  case 0
  then show ?case by simp
next
  case (Suc n)
  from Suc.prems(1) show ?case
  proof (cases rule: update_Suc_cases)
    case circular
    from firstTrue_True[OF circular(1)] obtain p where
      "p \<in> set (parentsOf f)" "hasCircularDependency n s p c = Inr True"
      by blast
    then have "\<exists>p\<in>set (parentsOf f). (s, p) \<in> (dependentsGraph c)\<^sup>*"
      using hasCircularDependency_reaches[of n s p c True] by auto
    with Suc.prems(2) show ?thesis
      unfolding circular(2) by (rule circ)
  next
    case (computed u)
    have "\<forall>p\<in>set (parentsOf f). (s, p) \<notin> (dependentsGraph c)\<^sup>*"
    proof
      fix p assume "p \<in> set (parentsOf f)"
      with computed(1) have "hasCircularDependency n s p c = Inr False"
        by (rule firstTrue_False)
      from hasCircularDependency_reaches[OF this] show "(s, p) \<notin> (dependentsGraph c)\<^sup>*"
        by simp
    qed
    with Suc.prems(2) have "I u"
      using computed(2) by (rule comp)
    with computed(3) show ?thesis
    proof (rule refreshChildren_update_invariant)
      fix k cd st' r'
      assume "I st'" and "st' k = Some cd"
        and u': "updateCellAndDependents ev n k (formula cd) st' = Inr r'"
      then have "P k (formula cd) st'"
        by (simp add: child)
      with u' show "I r'"
        by (rule Suc.IH)
    qed
  qed
qed

lemma content_references:
  "content c' x = content c x \<Longrightarrow> references c' x y = references c x y"
  by (auto simp: content_def references_def split: option.splits)

lemma content_valueOf:
  "content c' x = content c x \<Longrightarrow> valueOf c' x = valueOf c x"
  by (cases "c x"; cases "c' x") (simp_all add: content_def valueOf_def)

lemma parentsOf_Nil: "parentsOf [] = []"
  by (simp add: parentsOf_def)

lemma references_materialized: "content c x = Some (Str [], []) \<Longrightarrow> \<not> references c x y"
  by (cases "c x") (auto simp: content_def references_def parentsOf_Nil)

lemma addParents_step:
  assumes "addParents s ps (c(s \<mapsto> x)) = Inr u"
    and "dependencies x = Some (dependenciesOrEmpty c s)"
    and "s \<notin> set ps"
  shows "u s = Some x"
    and "\<And>k. set (dependenciesOrEmpty u k)
              = set (dependenciesOrEmpty c k) \<union> (if k \<in> set ps then {s} else {})"
    and "\<And>k. k \<noteq> s \<Longrightarrow> k \<in> dom c \<Longrightarrow> content u k = content c k"
    and "\<And>k. k \<noteq> s \<Longrightarrow> k \<notin> dom c \<Longrightarrow> k \<in> set ps \<Longrightarrow> content u k = Some (Str [], [])"
    and "\<And>k. k \<noteq> s \<Longrightarrow> k \<notin> set ps \<Longrightarrow> u k = c k"
    and "dom u = insert s (dom c) \<union> set ps"
proof -
  note A = addParents_Inr[OF assms(1)]
  have d: "dependenciesOrEmpty (c(s \<mapsto> x)) = dependenciesOrEmpty c"
    using assms(2) by (auto simp: dependenciesOrEmpty_def fun_eq_iff)
  show "u s = Some x"
    using A assms(3) by simp
  show "\<And>k. set (dependenciesOrEmpty u k)
              = set (dependenciesOrEmpty c k) \<union> (if k \<in> set ps then {s} else {})"
    using A d by simp
  show "\<And>k. k \<noteq> s \<Longrightarrow> k \<in> dom c \<Longrightarrow> content u k = content c k"
  proof -
    fix k assume k: "k \<noteq> s" "k \<in> dom c"
    then have "k \<in> dom (c(s \<mapsto> x))" by simp
    with A have "content u k = content (c(s \<mapsto> x)) k" by blast
    with k show "content u k = content c k" by (simp add: content_def)
  qed
  show "\<And>k. k \<noteq> s \<Longrightarrow> k \<notin> dom c \<Longrightarrow> k \<in> set ps \<Longrightarrow> content u k = Some (Str [], [])"
  proof -
    fix k assume k: "k \<noteq> s" "k \<notin> dom c" "k \<in> set ps"
    then have "k \<notin> dom (c(s \<mapsto> x))" by simp
    with A k(3) show "content u k = Some (Str [], [])" by blast
  qed
  show "\<And>k. k \<noteq> s \<Longrightarrow> k \<notin> set ps \<Longrightarrow> u k = c k"
    using A by simp
  show "dom u = insert s (dom c) \<union> set ps"
    using A by auto
qed

lemma unreached_not_self:
  "\<forall>p\<in>set ps. (s, p) \<notin> E\<^sup>* \<Longrightarrow> s \<notin> set ps"
  by auto

lemma computed_edgesComplete:
  assumes pre: "edgesCompleteExcept {s} c"
    and un: "\<forall>p\<in>set (parentsOf f). (s, p) \<notin> (dependentsGraph c)\<^sup>*"
    and u: "addParents s (parentsOf f)
              (c(s \<mapsto> \<lparr>val = v, formula = f,
                       dependencies = Some (dependenciesOrEmpty c s)\<rparr>)) = Inr u"
  shows "edgesCompleteExcept {} u"
proof -
  from un have ns: "s \<notin> set (parentsOf f)"
    by (rule unreached_not_self)
  note S = addParents_step[OF u _ ns, simplified]
  show "edgesCompleteExcept {} u"
    unfolding edgesCompleteExcept_def
  proof (intro allI impI)
    fix x y
    assume ref: "references u x y" and v: "valueOf u x \<noteq> Some (Str ''#CIRCULAR'')"
    show "x \<in> set (dependenciesOrEmpty u y)"
    proof (cases "x = s")
      case True
      with ref S(1) have "y \<in> set (parentsOf f)"
        by (simp add: references_def)
      with True S(2)[of y] show ?thesis
        by simp
    next
      case False
      show ?thesis
      proof (cases "x \<in> dom c")
        case True
        with False have eq: "content u x = content c x"
          by (rule S(3))
        have "references c x y"
          using ref content_references[OF eq] by simp
        moreover have "valueOf c x \<noteq> Some (Str ''#CIRCULAR'')"
          using v content_valueOf[OF eq] by simp
        ultimately have "references c x y" "valueOf c x \<noteq> Some (Str ''#CIRCULAR'')"
          by simp_all
        with pre False have "x \<in> set (dependenciesOrEmpty c y)"
          by (simp add: edgesCompleteExcept_def)
        with S(2)[of y] show ?thesis
          by simp
      next
        case nd: False
        show ?thesis
        proof (cases "x \<in> set (parentsOf f)")
          case True
          with False nd have "content u x = Some (Str [], [])"
            by (rule S(4))
          with ref show ?thesis
            using references_materialized by blast
        next
          case np: False
          with False have "u x = c x"
            by (rule S(5))
          with nd ref show ?thesis
            by (auto simp: references_def split: option.splits)
        qed
      qed
    qed
  qed
qed

lemma update_edgesComplete:
  assumes "updateCellAndDependents ev n s f c = Inr r" and "edgesCompleteExcept {s} c"
  shows "edgesCompleteExcept {} r"
  using assms(1)
proof (rule update_invariant_rule[where P = "\<lambda>s f c. edgesCompleteExcept {s} c"
        and I = "edgesCompleteExcept {}"])
  show "edgesCompleteExcept {s} c" by (rule assms(2))
next
  fix s f c
  assume pre: "edgesCompleteExcept {s} c"
  let ?r = "c(s \<mapsto> \<lparr>val = Str ''#CIRCULAR'', formula = f,
                     dependencies = Some (dependenciesOrEmpty c s)\<rparr>)"
  show "edgesCompleteExcept {} ?r"
    unfolding edgesCompleteExcept_def
  proof (intro allI impI)
    fix x y
    assume ref: "references ?r x y" and v: "valueOf ?r x \<noteq> Some (Str ''#CIRCULAR'')"
    from v have xs: "x \<noteq> s"
      by (auto simp: valueOf_def)
    then have "references c x y" "valueOf c x \<noteq> Some (Str ''#CIRCULAR'')"
      using ref v by (simp_all add: references_def valueOf_def)
    with pre xs have "x \<in> set (dependenciesOrEmpty c y)"
      by (simp add: edgesCompleteExcept_def)
    then show "x \<in> set (dependenciesOrEmpty ?r y)"
      by (simp add: dependenciesOrEmpty_upd_same)
  qed
next
  fix s f c u
  assume "edgesCompleteExcept {s} c"
    and "\<forall>p\<in>set (parentsOf f). (s, p) \<notin> (dependentsGraph c)\<^sup>*"
    and "addParents s (parentsOf f)
              (c(s \<mapsto> \<lparr>val = calculateFormula ev f c, formula = f,
                       dependencies = Some (dependenciesOrEmpty c s)\<rparr>)) = Inr u"
  then show "edgesCompleteExcept {} u"
    by (rule computed_edgesComplete)
next
  fix st :: cellstore and k :: cellid and cd :: cell
  assume "edgesCompleteExcept {} st"
  then show "edgesCompleteExcept {k} st"
    by (simp add: edgesCompleteExcept_def)
qed

lemma parentsOf_formula:
  "startsWithEq f \<Longrightarrow> matchRefs (toUpperCase (drop 1 f)) = parentsOf f"
proof (cases f)
  case Nil
  then show "startsWithEq f \<Longrightarrow> ?thesis" by simp
next
  case (Cons a cs)
  assume "startsWithEq f"
  with Cons have a: "a = CHR ''=''" by simp
  show ?thesis
    by (simp add: Cons a parentsOf_def toUpperCase_def is_lower_def is_upper_def)
qed

lemma calculateFormulaLog_formula:
  assumes "startsWithEq f"
  shows "calculateFormulaLog ev f c =
     (case substituteRefs c (parentsOf f) (toUpperCase (drop 1 f)) of
        None \<Rightarrow> (Str ''#ERROR'', [])
      | Some e \<Rightarrow> (case ev e of None \<Rightarrow> (Str ''#ERROR'', [e]) | Some v \<Rightarrow> (v, [e])))"
  unfolding calculateFormulaLog_def Let_def parentsOf_formula[OF assms]
  using assms by simp

lemma hasCircularDependency_cong:
  "dependenciesOrEmpty c' = dependenciesOrEmpty c \<Longrightarrow>
     hasCircularDependency n s t c' = hasCircularDependency n s t c"
  by (induction n arbitrary: s) simp_all

lemma substituteRefs_cong:
  "(\<And>k. k \<in> set refs \<Longrightarrow> valueOrZero c' k = valueOrZero c k) \<Longrightarrow>
     substituteRefs c' refs e = substituteRefs c refs e"
  by (induction refs arbitrary: e) (simp_all add: Let_def)

lemma calculateFormula_cong:
  assumes "\<And>k. k \<in> set (parentsOf f) \<Longrightarrow> c' k = c k"
  shows "calculateFormula ev f c' = calculateFormula ev f c"
proof (cases "startsWithEq f")
  case False
  then show ?thesis
    by (simp add: calculateFormula_def calculateFormulaLog_def)
next
  case True
  have "substituteRefs c' (parentsOf f) e = substituteRefs c (parentsOf f) e" for e
    by (rule substituteRefs_cong) (simp add: valueOrZero_def assms)
  then show ?thesis
    by (simp add: calculateFormula_def calculateFormulaLog_formula[OF True])
qed

lemma self_reference_never_False:
  "hasCircularDependency n s s c \<noteq> Inr False"
  by (cases n) simp_all

lemma update_start_irrelevant:
  assumes other: "\<And>k. k \<noteq> s \<Longrightarrow> c' k = c k"
    and deps: "dependenciesOrEmpty c' = dependenciesOrEmpty c"
  shows "updateCellAndDependents ev n s f c' = updateCellAndDependents ev n s f c"
proof (cases n)
  case 0
  then show ?thesis by simp
next
  case (Suc m)
  let ?check = "\<lambda>c. firstTrue (\<lambda>p. hasCircularDependency m s p c) (parentsOf f)"
  have chk: "?check c' = ?check c"
    by (simp add: hasCircularDependency_cong[OF deps])
  have upd: "c'(s \<mapsto> x) = c(s \<mapsto> x)" for x
    using other by (auto simp: fun_eq_iff)
  show ?thesis
  proof (cases "?check c = Inr False")
    case False
    then show ?thesis
      unfolding Suc update_Suc chk deps upd
      by (auto split: sum.splits)
  next
    case True
    have "s \<notin> set (parentsOf f)"
    proof
      assume "s \<in> set (parentsOf f)"
      with True have "hasCircularDependency m s s c = Inr False"
        by (rule firstTrue_False)
      then show False
        using self_reference_never_False by blast
    qed
    then have ceq: "calculateFormula ev f c' = calculateFormula ev f c"
      by (intro calculateFormula_cong other) auto
    show ?thesis
      unfolding Suc update_Suc chk deps upd ceq by (rule refl)
  qed
qed

lemma handleBlur_after_input:
  "handleBlur ev n s (handleInputChange s t c) = updateCellAndDependents ev n s t c"
proof -
  have f: "(case handleInputChange s t c s of None \<Rightarrow> [] | Some x \<Rightarrow> formula x) = t"
    by (simp add: handleInputChange_def split: option.splits)
  have "updateCellAndDependents ev n s t (handleInputChange s t c)
      = updateCellAndDependents ev n s t c"
  proof (rule update_start_irrelevant)
    show "\<And>k. k \<noteq> s \<Longrightarrow> handleInputChange s t c k = c k"
      by (simp add: handleInputChange_def)
    show "dependenciesOrEmpty (handleInputChange s t c) = dependenciesOrEmpty c"
      by (rule handleInputChange_dependencies)
  qed
  then show ?thesis
    by (simp add: handleBlur_def f)
qed

lemma update_dependencies_mono:
  "updateCellAndDependents ev n s f c = Inr r \<Longrightarrow>
     set (dependenciesOrEmpty c k) \<subseteq> set (dependenciesOrEmpty r k)"
proof -
  assume "updateCellAndDependents ev n s f c = Inr r"
  then have "dependentsGraph c \<subseteq> dependentsGraph r"
    by (rule update_graph[THEN conjunct1])
  then show ?thesis
    by (auto simp: dependentsGraph_def)
qed

lemma committed_edgesComplete: "c \<in> committed ev \<Longrightarrow> edgesCompleteExcept {} c"
proof (induction rule: committed.induct)
  case initial
  show ?case
    by (simp add: edgesCompleteExcept_def references_def)
next
  case (edit currentCells n cellId newText finalState)
  from edit.hyps(2) have "updateCellAndDependents ev n cellId newText currentCells = Inr finalState"
    by (simp add: handleBlur_after_input)
  moreover have "edgesCompleteExcept {cellId} currentCells"
    using edit.IH by (simp add: edgesCompleteExcept_def)
  ultimately show ?case
    by (rule update_edgesComplete)
next
  case (blur currentCells n cellId finalState)
  have "edgesCompleteExcept {cellId} currentCells"
    using blur.IH by (simp add: edgesCompleteExcept_def)
  with blur.hyps(2) show ?case
    unfolding handleBlur_def by (rule update_edgesComplete)
qed

text \<open>
  C2, as the code has it. A commit that is not rejected (no reference of the new formula
  can be reached from the edited cell) leaves the edited cell among the dependents of every
  cell its formula references. And in every store that the component reaches by commits
  from the empty store: when the stored formula of \<open>x\<close> references \<open>y\<close> and the value of \<open>x\<close>
  is not \<^verbatim>\<open>#CIRCULAR\<close>, then \<open>x\<close> is among the dependents of \<open>y\<close>.
\<close>

theorem references_recorded:
  "(updateCellAndDependents evaluate n x newFormula allCells = Inr r
      \<and> (\<forall>p\<in>set (parentsOf newFormula). (x, p) \<notin> (dependentsGraph allCells)\<^sup>*)
      \<and> y \<in> set (parentsOf newFormula)
    \<longrightarrow> x \<in> set (dependenciesOrEmpty r y))
   \<and> (allCells \<in> committed evaluate \<and> references allCells x y
        \<and> valueOf allCells x \<noteq> Some (Str ''#CIRCULAR'')
      \<longrightarrow> x \<in> set (dependenciesOrEmpty allCells y))"
proof (intro conjI impI)
  assume a: "allCells \<in> committed evaluate \<and> references allCells x y
        \<and> valueOf allCells x \<noteq> Some (Str ''#CIRCULAR'')"
  then have "edgesCompleteExcept {} allCells"
    using committed_edgesComplete by blast
  with a show "x \<in> set (dependenciesOrEmpty allCells y)"
    by (simp add: edgesCompleteExcept_def)
next
  assume a: "updateCellAndDependents evaluate n x newFormula allCells = Inr r
      \<and> (\<forall>p\<in>set (parentsOf newFormula). (x, p) \<notin> (dependentsGraph allCells)\<^sup>*)
      \<and> y \<in> set (parentsOf newFormula)"
  then obtain m where m: "updateCellAndDependents evaluate (Suc m) x newFormula allCells = Inr r"
    by (cases n) auto
  from m show "x \<in> set (dependenciesOrEmpty r y)"
  proof (cases rule: update_Suc_cases)
    case circular
    from firstTrue_True[OF circular(1)] obtain p where
      "p \<in> set (parentsOf newFormula)" "hasCircularDependency m x p allCells = Inr True"
      by blast
    with a show ?thesis
      using hasCircularDependency_reaches[of m x p allCells True] by auto
  next
    case (computed u)
    from a have "x \<notin> set (parentsOf newFormula)"
      by auto
    from addParents_step(2)[OF computed(2) _ this, of y] a
    have "x \<in> set (dependenciesOrEmpty u y)"
      by simp
    moreover have "set (dependenciesOrEmpty u y) \<subseteq> set (dependenciesOrEmpty r y)"
    proof (rule refreshChildren_update_invariant[OF computed(3),
            where I = "\<lambda>st. set (dependenciesOrEmpty u y) \<subseteq> set (dependenciesOrEmpty st y)"])
      show "set (dependenciesOrEmpty u y) \<subseteq> set (dependenciesOrEmpty u y)"
        by simp
    next
      fix k cd st' r'
      assume "set (dependenciesOrEmpty u y) \<subseteq> set (dependenciesOrEmpty st' y)"
        and "updateCellAndDependents evaluate m k (formula cd) st' = Inr r'"
      then show "set (dependenciesOrEmpty u y) \<subseteq> set (dependenciesOrEmpty r' y)"
        using update_dependencies_mono by blast
    qed
    ultimately show ?thesis
      by auto
  qed
qed

text \<open>
  C2 states this for every cell of every returned store. The rejected edit \<open>A1 = B1\<close> of
  the second scenario returns a store in which the formula of \<open>A1\<close> references \<open>B1\<close>, and
  \<open>A1\<close> is not among the dependents of \<open>B1\<close>: a rejected edit keeps the formula and adds
  no edge.
\<close>

theorem references_recorded_counterexample:
  "updateCellAndDependents sampleEvaluate (Suc (Suc (Suc 0))) ''A1'' ''=B1'' storeAB = Inr rejectedStore
   \<and> references rejectedStore ''A1'' ''B1''
   \<and> ''A1'' \<notin> set (dependenciesOrEmpty rejectedStore ''B1'')"
proof -
  have "references rejectedStore ''A1'' ''B1''"
    by (simp add: references_def rejectedStore_def engine_defs)
  moreover have "''A1'' \<notin> set (dependenciesOrEmpty rejectedStore ''B1'')"
    by (simp add: rejectedStore_def storeAB_def dependenciesOrEmpty_def)
  ultimately show ?thesis
    using rejected_commit by simp
qed

theorem references_recorded_witness:
  "updateCellAndDependents sampleEvaluate (Suc (Suc 0)) ''B1'' ''=A1+1'' storeA = Inr storeAB
   \<and> parentsOf ''=A1+1'' = [''A1'']
   \<and> (''B1'', ''A1'') \<notin> (dependentsGraph storeA)\<^sup>*
   \<and> storeAB \<in> committed sampleEvaluate \<and> references storeAB ''B1'' ''A1''
   \<and> valueOf storeAB ''B1'' \<noteq> Some (Str ''#CIRCULAR'')
   \<and> ''B1'' \<in> set (dependenciesOrEmpty storeAB ''A1'')"
proof -
  have c: "updateCellAndDependents sampleEvaluate (Suc (Suc 0)) ''B1'' ''=A1+1'' storeA = Inr storeAB"
    using storeAB_commit by (simp only: handleBlur_after_input)
  have p: "parentsOf ''=A1+1'' = [''A1'']"
    by (simp add: engine_defs)
  have n: "(''B1'', ''A1'') \<notin> (dependentsGraph storeA)\<^sup>*"
  proof
    assume "(''B1'', ''A1'') \<in> (dependentsGraph storeA)\<^sup>*"
    then obtain z where "(''B1'', z) \<in> dependentsGraph storeA"
      by (auto elim: converse_rtranclE)
    then show False
      by (simp add: mem_graph dependenciesOrEmpty_def storeA_def)
  qed
  then have u: "\<forall>p\<in>set (parentsOf ''=A1+1''). (''B1'', p) \<notin> (dependentsGraph storeA)\<^sup>*"
    by (simp add: p)
  have r: "references storeAB ''B1'' ''A1''"
    by (simp add: references_def storeAB_def p)
  have v: "valueOf storeAB ''B1'' \<noteq> Some (Str ''#CIRCULAR'')"
    by (simp add: valueOf_def storeAB_def)
  have "''B1'' \<in> set (dependenciesOrEmpty storeAB ''A1'')"
    using references_recorded[of sampleEvaluate "Suc (Suc 0)" "''B1''" "''=A1+1''" storeA storeAB
        "''A1''"] c u p
    by simp
  moreover have "''B1'' \<in> set (dependenciesOrEmpty storeAB ''A1'')"
    using references_recorded[of sampleEvaluate 0 "''B1''" "[]" storeAB storeAB "''A1''"]
      storeAB_committed r v
    by simp
  ultimately show ?thesis
    using c n p storeAB_committed r v by simp
qed

section \<open>Error values\<close>

lemma substituteRefs_poisoned:
  "y \<in> set refs \<Longrightarrow>
   valueOrZero c y = Str ''#ERROR'' \<or> valueOrZero c y = Str ''#CIRCULAR'' \<Longrightarrow>
   substituteRefs c refs e = None"
  by (induction refs arbitrary: e) (auto simp: Let_def)

lemma valueOrZero_tag:
  "valueOf c y = Some (Str ''#ERROR'') \<or> valueOf c y = Some (Str ''#CIRCULAR'') \<Longrightarrow>
   valueOrZero c y = Str ''#ERROR'' \<or> valueOrZero c y = Str ''#CIRCULAR''"
  by (cases "c y") (auto simp: valueOf_def valueOrZero_def truthy_def)

lemma calculateFormulaLog_poisoned:
  assumes "startsWithEq f" and "y \<in> set (parentsOf f)"
    and "valueOf c y = Some (Str ''#ERROR'') \<or> valueOf c y = Some (Str ''#CIRCULAR'')"
  shows "calculateFormulaLog ev f c = (Str ''#ERROR'', [])"
proof -
  have "substituteRefs c (parentsOf f) (toUpperCase (drop 1 f)) = None"
    using assms(2) valueOrZero_tag[OF assms(3)] by (rule substituteRefs_poisoned)
  then show ?thesis
    by (simp add: calculateFormulaLog_formula[OF assms(1)])
qed

lemma parentsOf_literal: "\<not> startsWithEq f \<Longrightarrow> parentsOf f = []"
  by (simp add: parentsOf_def)

lemma references_startsWithEq:
  "y \<in> set (parentsOf f) \<Longrightarrow> startsWithEq f"
  by (cases "startsWithEq f") (simp_all add: parentsOf_def)

lemma calculateFormula_literal: "\<not> startsWithEq f \<Longrightarrow> calculateFormula ev f c = Str f"
  by (simp add: calculateFormula_def calculateFormulaLog_def)

lemma update_literal_stable:
  assumes lit: "\<not> startsWithEq lit"
    and upd: "updateCellAndDependents ev n k g c = Inr r"
    and pre: "(k = s \<longrightarrow> g = lit) \<and> (k \<noteq> s \<longrightarrow> content c s = Some (Str lit, lit))"
  shows "content r s = Some (Str lit, lit)"
  using upd
proof (rule update_invariant_rule[where
      P = "\<lambda>k g c. (k = s \<longrightarrow> g = lit) \<and> (k \<noteq> s \<longrightarrow> content c s = Some (Str lit, lit))"
      and I = "\<lambda>st. content st s = Some (Str lit, lit)"])
  show "(k = s \<longrightarrow> g = lit) \<and> (k \<noteq> s \<longrightarrow> content c s = Some (Str lit, lit))"
    by (rule pre)
next
  fix k g c
  assume P: "(k = s \<longrightarrow> g = lit) \<and> (k \<noteq> s \<longrightarrow> content c s = Some (Str lit, lit))"
    and "\<exists>p\<in>set (parentsOf g). (k, p) \<in> (dependentsGraph c)\<^sup>*"
  then have "k \<noteq> s"
    using parentsOf_literal[OF lit] by auto
  with P show "content (c(k \<mapsto> \<lparr>val = Str ''#CIRCULAR'', formula = g,
                   dependencies = Some (dependenciesOrEmpty c k)\<rparr>)) s = Some (Str lit, lit)"
    by (simp add: content_def)
next
  fix k g c u
  assume P: "(k = s \<longrightarrow> g = lit) \<and> (k \<noteq> s \<longrightarrow> content c s = Some (Str lit, lit))"
    and un: "\<forall>p\<in>set (parentsOf g). (k, p) \<notin> (dependentsGraph c)\<^sup>*"
    and u: "addParents k (parentsOf g)
              (c(k \<mapsto> \<lparr>val = calculateFormula ev g c, formula = g,
                       dependencies = Some (dependenciesOrEmpty c k)\<rparr>)) = Inr u"
  from un have nk: "k \<notin> set (parentsOf g)"
    by (rule unreached_not_self)
  note S = addParents_step[OF u _ nk, simplified]
  show "content u s = Some (Str lit, lit)"
  proof (cases "k = s")
    case True
    with P have "g = lit" by simp
    with S(1) True show ?thesis
      by (simp add: content_def calculateFormula_literal[OF lit])
  next
    case False
    with P have c: "content c s = Some (Str lit, lit)" by simp
    then have "s \<in> dom c"
      by (auto simp: content_def)
    with False have "content u s = content c s"
      by (intro S(3)) auto
    with c show ?thesis by simp
  qed
next
  fix st :: cellstore and k :: cellid and cd :: cell
  assume "content st s = Some (Str lit, lit)" and "st k = Some cd"
  then show "(k = s \<longrightarrow> formula cd = lit) \<and> (k \<noteq> s \<longrightarrow> content st s = Some (Str lit, lit))"
    by (auto simp: content_def)
qed

text \<open>
  C10. A committed literal \<^verbatim>\<open>#ERROR\<close> or \<^verbatim>\<open>#CIRCULAR\<close> (no leading \<^verbatim>\<open>=\<close>) is stored as the
  value of the cell as it is, next to the same text as formula, and in the returned store
  every formula that references the cell evaluates to \<^verbatim>\<open>#ERROR\<close> without a call of the
  evaluator, although nothing failed and no cycle was found.
\<close>

theorem literal_tag_poisons:
  "(lit = ''#ERROR'' \<or> lit = ''#CIRCULAR'')
   \<and> updateCellAndDependents evaluate n cellId lit allCells = Inr r
   \<longrightarrow> content r cellId = Some (Str lit, lit)
       \<and> (\<forall>f. cellId \<in> set (parentsOf f) \<longrightarrow> calculateFormulaLog evaluate f r = (Str ''#ERROR'', []))"
proof (intro impI)
  assume a: "(lit = ''#ERROR'' \<or> lit = ''#CIRCULAR'')
    \<and> updateCellAndDependents evaluate n cellId lit allCells = Inr r"
  then have lit: "\<not> startsWithEq lit"
    by auto
  from a have "updateCellAndDependents evaluate n cellId lit allCells = Inr r"
    by simp
  with lit have c: "content r cellId = Some (Str lit, lit)"
    by (rule update_literal_stable) simp
  then have "valueOf r cellId = Some (Str lit)"
    by (auto simp: content_def valueOf_def)
  with a have v: "valueOf r cellId = Some (Str ''#ERROR'') \<or> valueOf r cellId = Some (Str ''#CIRCULAR'')"
    by auto
  have "calculateFormulaLog evaluate f r = (Str ''#ERROR'', [])" if "cellId \<in> set (parentsOf f)" for f
    using references_startsWithEq[OF that] that v by (rule calculateFormulaLog_poisoned)
  with c show "content r cellId = Some (Str lit, lit)
       \<and> (\<forall>f. cellId \<in> set (parentsOf f) \<longrightarrow> calculateFormulaLog evaluate f r = (Str ''#ERROR'', []))"
    by simp
qed

lemma tagStore_commit:
  "updateCellAndDependents sampleEvaluate (Suc (Suc 0)) ''A1'' ''#ERROR'' Map.empty = Inr tagStore"
  by (simp add: engine_defs tagStore_def)

theorem literal_tag_poisons_witness:
  "updateCellAndDependents sampleEvaluate (Suc (Suc 0)) ''A1'' ''#ERROR'' Map.empty = Inr tagStore
   \<and> content tagStore ''A1'' = Some (Str ''#ERROR'', ''#ERROR'')
   \<and> ''A1'' \<in> set (parentsOf ''=A1+1'')
   \<and> calculateFormulaLog sampleEvaluate ''=A1+1'' tagStore = (Str ''#ERROR'', [])"
proof -
  have p: "''A1'' \<in> set (parentsOf ''=A1+1'')"
    by (simp add: engine_defs)
  from literal_tag_poisons[of "''#ERROR''" sampleEvaluate "Suc (Suc 0)" "''A1''" Map.empty tagStore]
    tagStore_commit
  have "content tagStore ''A1'' = Some (Str ''#ERROR'', ''#ERROR'')"
    and "\<forall>f. ''A1'' \<in> set (parentsOf f) \<longrightarrow> calculateFormulaLog sampleEvaluate f tagStore = (Str ''#ERROR'', [])"
    by simp_all
  with p tagStore_commit show ?thesis
    by simp
qed

lemma errStore_commit:
  "handleBlur sampleEvaluate (Suc (Suc (Suc 0))) ''A1'' (handleInputChange ''A1'' ''=1+'' storeAB)
     = Inr errStore"
  by (simp add: engine_defs storeAB_def errStore_def sampleEvaluate_def fun_eq_iff)

lemma errStore_committed: "errStore \<in> committed sampleEvaluate"
  using storeAB_committed errStore_commit by (rule committed.edit)

section \<open>Materialized cells\<close>

lemma rejectable_mono:
  assumes "rejectable c x" and "content c' x = content c x"
    and "dependentsGraph c \<subseteq> dependentsGraph c'"
  shows "rejectable c' x"
proof -
  from assms(1) obtain p where p: "references c x p" "(x, p) \<in> (dependentsGraph c)\<^sup>*"
    by (auto simp: rejectable_def)
  from p(1) have "references c' x p"
    using content_references[OF assms(2)] by simp
  moreover from p(2) have "(x, p) \<in> (dependentsGraph c')\<^sup>*"
    using rtrancl_mono[OF assms(3)] by blast
  ultimately show ?thesis
    by (auto simp: rejectable_def)
qed

lemma references_upd:
  "references (c(s \<mapsto> \<lparr>val = v, formula = f, dependencies = d\<rparr>)) x y
     = (if x = s then y \<in> set (parentsOf f) else references c x y)"
  by (simp add: references_def)

lemma references_dom: "references c x y \<Longrightarrow> x \<in> dom c"
  by (auto simp: references_def split: option.splits)

lemma addParents_step_graph:
  assumes "addParents s ps (c(s \<mapsto> x)) = Inr u"
    and "dependencies x = Some (dependenciesOrEmpty c s)"
    and "s \<notin> set ps"
  shows "dependentsGraph u = dependentsGraph c \<union> set ps \<times> {s}"
  using addParents_step(2)[OF assms] by (auto simp: dependentsGraph_def split: if_splits)

lemma addParents_step_references:
  assumes "addParents s ps (c(s \<mapsto> x)) = Inr u"
    and "dependencies x = Some (dependenciesOrEmpty c s)"
    and "s \<notin> set ps" and "k \<noteq> s" and "references u k y"
  shows "k \<in> dom c \<and> content u k = content c k \<and> references c k y"
proof -
  note S = addParents_step[OF assms(1-3)]
  have kd: "k \<in> dom c"
  proof (rule ccontr)
    assume nd: "k \<notin> dom c"
    show False
    proof (cases "k \<in> set ps")
      case True
      with assms(4) nd have "content u k = Some (Str [], [])"
        by (rule S(4))
      with assms(5) show False
        using references_materialized by blast
    next
      case False
      with assms(4) have "u k = c k"
        by (rule S(5))
      with nd assms(5) show False
        by (auto simp: references_def split: option.splits)
    qed
  qed
  with assms(4) have eq: "content u k = content c k"
    by (rule S(3))
  with assms(5) kd show ?thesis
    using content_references[OF eq] by simp
qed

lemma addParents_present:
  "\<forall>p\<in>set ps. p \<in> dom u \<and> s \<in> set (dependenciesOrEmpty u p) \<Longrightarrow> addParents s ps u = Inr u"
proof (induction ps)
  case Nil
  then show ?case by simp
next
  case (Cons p ps)
  then obtain x where x: "u p = Some x" and sp: "s \<in> set (dependenciesOrEmpty u p)"
    by auto
  from x have m: "materialize p u = u"
    by (simp add: materialize_def)
  from x sp obtain ds where "dependencies x = Some ds" "s \<in> set ds"
    by (cases "dependencies x") (auto simp: dependenciesOrEmpty_def)
  with x have "pushDependent s p u = Inr u"
    by (simp add: pushDependent_def)
  with m Cons show ?case
    by simp
qed

lemma not_reached_outside_Range:
  "z \<notin> Range E \<Longrightarrow> e \<noteq> z \<Longrightarrow> (e, z) \<notin> E\<^sup>*"
  by (auto elim: rtranclE)

lemma update_materializedFor:
  assumes ez: "e \<noteq> z" and pf: "parentsOf f0 = [z]"
    and calc: "\<And>st. valueOrZero st z = Num 0 \<Longrightarrow> calculateFormula ev f0 st = v"
    and upd: "updateCellAndDependents ev n k g c = Inr r"
    and pre: "materializedFor z e v f0 c \<and> (\<exists>cd. c k = Some cd \<and> g = formula cd)"
  shows "materializedFor z e v f0 r"
  using upd
proof (rule update_invariant_rule[where
      P = "\<lambda>k g c. materializedFor z e v f0 c \<and> (\<exists>cd. c k = Some cd \<and> g = formula cd)"
      and I = "materializedFor z e v f0"])
  show "materializedFor z e v f0 c \<and> (\<exists>cd. c k = Some cd \<and> g = formula cd)"
    by (rule pre)
next
  fix st :: cellstore and k :: cellid and cd :: cell
  assume "materializedFor z e v f0 st" and "st k = Some cd"
  then show "materializedFor z e v f0 st \<and> (\<exists>cd'. st k = Some cd' \<and> formula cd = formula cd')"
    by simp
next
  fix k g c
  assume P: "materializedFor z e v f0 c \<and> (\<exists>cd. c k = Some cd \<and> g = formula cd)"
    and re: "\<exists>p\<in>set (parentsOf g). (k, p) \<in> (dependentsGraph c)\<^sup>*"
  then have K: "c z = Some \<lparr>val = Str [], formula = [], dependencies = Some [e]\<rparr>"
    "content c e = Some (v, f0)" "z \<notin> Range (dependentsGraph c)"
    "\<And>x. x \<noteq> e \<Longrightarrow> references c x z \<Longrightarrow> rejectable c x"
    by (simp_all add: materializedFor_def)
  from P obtain cd where cd: "c k = Some cd" "g = formula cd"
    by blast
  let ?r = "c(k \<mapsto> \<lparr>val = Str ''#CIRCULAR'', formula = g,
                     dependencies = Some (dependenciesOrEmpty c k)\<rparr>)"
  have g: "dependentsGraph ?r = dependentsGraph c"
    by (rule dependentsGraph_upd_same)
  have kz: "k \<noteq> z"
  proof
    assume "k = z"
    with K(1) cd(1) have "cd = \<lparr>val = Str [], formula = [], dependencies = Some [e]\<rparr>" by simp
    with cd(2) have "g = []" by simp
    with re show False by (simp add: parentsOf_Nil)
  qed
  have ke: "k \<noteq> e"
  proof
    assume "k = e"
    with K(2) cd have "g = f0" by (simp add: content_def)
    with re pf \<open>k = e\<close> have "(e, z) \<in> (dependentsGraph c)\<^sup>*" by simp
    with not_reached_outside_Range[OF K(3) ez] show False
      by simp
  qed
  show "materializedFor z e v f0 ?r"
    unfolding materializedFor_def
  proof (intro conjI allI impI)
    show "?r z = Some \<lparr>val = Str [], formula = [], dependencies = Some [e]\<rparr>"
      using kz K(1) by simp
    show "content ?r e = Some (v, f0)"
      using ke K(2) by (simp add: content_def)
    show "z \<notin> Range (dependentsGraph ?r)"
      using K(3) by (simp add: g)
  next
    fix x assume xe: "x \<noteq> e" and ref: "references ?r x z"
    show "rejectable ?r x"
    proof (cases "x = k")
      case True
      from re obtain p where "p \<in> set (parentsOf g)" "(k, p) \<in> (dependentsGraph c)\<^sup>*"
        by blast
      with True show ?thesis
        unfolding rejectable_def g references_upd by auto
    next
      case False
      with ref have "references c x z"
        by (simp add: references_upd)
      with xe have "rejectable c x"
        by (rule K(4))
      moreover have "content ?r x = content c x"
        using False by (simp add: content_def)
      moreover have "dependentsGraph c \<subseteq> dependentsGraph ?r"
        by (simp add: g)
      ultimately show ?thesis
        by (rule rejectable_mono)
    qed
  qed
next
  fix k g c u
  assume P: "materializedFor z e v f0 c \<and> (\<exists>cd. c k = Some cd \<and> g = formula cd)"
    and un: "\<forall>p\<in>set (parentsOf g). (k, p) \<notin> (dependentsGraph c)\<^sup>*"
    and u: "addParents k (parentsOf g)
              (c(k \<mapsto> \<lparr>val = calculateFormula ev g c, formula = g,
                       dependencies = Some (dependenciesOrEmpty c k)\<rparr>)) = Inr u"
  then have K: "c z = Some \<lparr>val = Str [], formula = [], dependencies = Some [e]\<rparr>"
    "content c e = Some (v, f0)" "z \<notin> Range (dependentsGraph c)"
    "\<And>x. x \<noteq> e \<Longrightarrow> references c x z \<Longrightarrow> rejectable c x"
    by (simp_all add: materializedFor_def)
  from P obtain cd where cd: "c k = Some cd" "g = formula cd"
    by blast
  from un have nk: "k \<notin> set (parentsOf g)"
    by (rule unreached_not_self)
  note S = addParents_step[OF u _ nk, simplified]
  have gu: "dependentsGraph u = dependentsGraph c \<union> set (parentsOf g) \<times> {k}"
    using u _ nk by (rule addParents_step_graph) simp
  have refk: "references c k y = (y \<in> set (parentsOf g))" for y
    using cd by (simp add: references_def)
  have zp: "z \<notin> set (parentsOf g)" if "k \<noteq> e"
  proof
    assume "z \<in> set (parentsOf g)"
    then have "references c k z"
      by (simp add: refk)
    with that have "rejectable c k"
      by (rule K(4))
    then obtain p where "p \<in> set (parentsOf g)" "(k, p) \<in> (dependentsGraph c)\<^sup>*"
      by (auto simp: rejectable_def refk)
    with un show False
      by blast
  qed
  have depz: "dependenciesOrEmpty c z = [e]"
    using K(1) by (simp add: dependenciesOrEmpty_def)
  have valz: "valueOrZero c z = Num 0"
    using K(1) by (simp add: valueOrZero_def truthy_def)
  have uz: "u z = Some \<lparr>val = Str [], formula = [], dependencies = Some [e]\<rparr>"
  proof (cases "k = z")
    case True
    with K(1) cd(1) have "cd = \<lparr>val = Str [], formula = [], dependencies = Some [e]\<rparr>" by simp
    with cd(2) have "g = []" by simp
    then have "calculateFormula ev g c = Str []" "parentsOf g = []"
      by (simp_all add: calculateFormula_def calculateFormulaLog_def parentsOf_Nil)
    with S(1) True \<open>g = []\<close> depz show ?thesis
      by simp
  next
    case False
    show ?thesis
    proof (cases "k = e")
      case True
      with K(2) cd have "g = f0" by (simp add: content_def)
      let ?c1 = "c(k \<mapsto> \<lparr>val = calculateFormula ev g c, formula = g,
                       dependencies = Some (dependenciesOrEmpty c k)\<rparr>)"
      have "addParents k (parentsOf g) ?c1 = Inr ?c1"
      proof (rule addParents_present)
        have "z \<in> dom c"
          using K(1) by auto
        then show "\<forall>p\<in>set (parentsOf g). p \<in> dom ?c1 \<and> k \<in> set (dependenciesOrEmpty ?c1 p)"
          using True depz by (simp add: \<open>g = f0\<close> pf dependenciesOrEmpty_upd_same)
      qed
      with u have "u = ?c1" by simp
      with False K(1) show ?thesis by simp
    next
      case ke: False
      then have "z \<notin> set (parentsOf g)"
        by (rule zp)
      with False have "u z = c z"
        by (intro S(5)) auto
      with K(1) show ?thesis by simp
    qed
  qed
  have ue: "content u e = Some (v, f0)"
  proof (cases "k = e")
    case True
    with K(2) cd have "g = f0" by (simp add: content_def)
    with calc[OF valz] S(1) True show ?thesis
      by (simp add: content_def)
  next
    case False
    moreover have "e \<in> dom c"
      using K(2) by (auto simp: content_def)
    ultimately have "content u e = content c e"
      by (intro S(3)) auto
    with K(2) show ?thesis by simp
  qed
  have ur: "z \<notin> Range (dependentsGraph u)"
  proof (cases "k = z")
    case True
    with K(1) cd(1) have "cd = \<lparr>val = Str [], formula = [], dependencies = Some [e]\<rparr>" by simp
    with cd(2) have "g = []" by simp
    with K(3) show ?thesis
      by (simp add: gu parentsOf_Nil)
  next
    case False
    with K(3) show ?thesis
      by (auto simp: gu)
  qed
  show "materializedFor z e v f0 u"
    unfolding materializedFor_def
  proof (intro conjI allI impI)
    show "u z = Some \<lparr>val = Str [], formula = [], dependencies = Some [e]\<rparr>" by (rule uz)
    show "content u e = Some (v, f0)" by (rule ue)
    show "z \<notin> Range (dependentsGraph u)" by (rule ur)
  next
    fix x assume xe: "x \<noteq> e" and ref: "references u x z"
    show "rejectable u x"
    proof (cases "x = k")
      case True
      with ref S(1) have "z \<in> set (parentsOf g)"
        by (simp add: references_def)
      with zp xe True show ?thesis
        by simp
    next
      case False
      from addParents_step_references[OF u _ nk False ref]
      have x: "content u x = content c x" "references c x z"
        by simp_all
      from xe x(2) have "rejectable c x"
        by (rule K(4))
      then show ?thesis
        using x(1) by (rule rejectable_mono) (simp add: gu)
    qed
  qed
qed

lemma calculateFormula_Z99:
  "valueOrZero st ''Z99'' = Num 0 \<Longrightarrow>
     calculateFormula ev ''=Z99+1'' st = (case ev ''0+1'' of None \<Rightarrow> Str ''#ERROR'' | Some w \<Rightarrow> w)"
  by (simp add: calculateFormula_def calculateFormulaLog_def toUpperCase_def is_upper_def
      is_lower_def is_digit_def replaceFirst_def toString_def digitChar_def Let_def
      split: option.splits)

lemma update_parent_recorded:
  assumes "updateCellAndDependents ev n s f c = Inr r"
    and un: "\<forall>p\<in>set (parentsOf f). (s, p) \<notin> (dependentsGraph c)\<^sup>*"
    and p: "p \<in> set (parentsOf f)"
  shows "p \<in> dom r \<and> s \<in> set (dependenciesOrEmpty r p)"
proof -
  from assms(1) obtain m where m: "updateCellAndDependents ev (Suc m) s f c = Inr r"
    by (cases n) auto
  from m show ?thesis
  proof (cases rule: update_Suc_cases)
    case circular
    from firstTrue_True[OF circular(1)] obtain q where
      "q \<in> set (parentsOf f)" "hasCircularDependency m s q c = Inr True"
      by blast
    with un show ?thesis
      using hasCircularDependency_reaches[of m s q c True] by auto
  next
    case (computed u)
    from un have ns: "s \<notin> set (parentsOf f)"
      by (rule unreached_not_self)
    note S = addParents_step[OF computed(2) _ ns, simplified]
    from S(2)[of p] p have su: "s \<in> set (dependenciesOrEmpty u p)"
      by simp
    have "s \<in> set (dependenciesOrEmpty r p)"
    proof (rule refreshChildren_update_invariant[OF computed(3),
          where I = "\<lambda>st. s \<in> set (dependenciesOrEmpty st p)"])
      show "s \<in> set (dependenciesOrEmpty u p)" by (rule su)
    next
      fix k cd st' r'
      assume "s \<in> set (dependenciesOrEmpty st' p)"
        and "updateCellAndDependents ev m k (formula cd) st' = Inr r'"
      then show "s \<in> set (dependenciesOrEmpty r' p)"
        using update_dependencies_mono by blast
    qed
    then show ?thesis
      using dependencies_in_dom by blast
  qed
qed

lemma addParents_distinct:
  "addParents s ps u = Inr u' \<Longrightarrow> \<forall>k. distinct (dependenciesOrEmpty u k)
     \<Longrightarrow> \<forall>k. distinct (dependenciesOrEmpty u' k)"
proof (induction ps arbitrary: u)
  case Nil
  then show ?case by simp
next
  case (Cons p ps)
  from Cons.prems(1) obtain u1 where
    p1: "pushDependent s p (materialize p u) = Inr u1" and rest: "addParents s ps u1 = Inr u'"
    by (auto split: sum.splits)
  have "\<forall>k. distinct (dependenciesOrEmpty u1 k)"
    using Cons.prems(2) by (simp add: pushDependent_Inr(1)[OF p1] dependenciesOrEmpty_materialize)
  with rest show ?case
    by (rule Cons.IH)
qed

lemma update_distinct:
  assumes "updateCellAndDependents ev n s f c = Inr r"
    and "\<forall>k. distinct (dependenciesOrEmpty c k)"
  shows "\<forall>k. distinct (dependenciesOrEmpty r k)"
  using assms(1)
proof (rule update_invariant_rule[where P = "\<lambda>s f c. \<forall>k. distinct (dependenciesOrEmpty c k)"
        and I = "\<lambda>c. \<forall>k. distinct (dependenciesOrEmpty c k)"])
  show "\<forall>k. distinct (dependenciesOrEmpty c k)" by (rule assms(2))
next
  fix s f c
  assume "\<forall>k. distinct (dependenciesOrEmpty c k)"
  then show "\<forall>k. distinct (dependenciesOrEmpty
      (c(s \<mapsto> \<lparr>val = Str ''#CIRCULAR'', formula = f,
               dependencies = Some (dependenciesOrEmpty c s)\<rparr>)) k)"
    unfolding dependenciesOrEmpty_upd_same .
next
  fix s f c u
  assume d: "\<forall>k. distinct (dependenciesOrEmpty c k)"
    and u: "addParents s (parentsOf f)
              (c(s \<mapsto> \<lparr>val = calculateFormula ev f c, formula = f,
                       dependencies = Some (dependenciesOrEmpty c s)\<rparr>)) = Inr u"
  from u show "\<forall>k. distinct (dependenciesOrEmpty u k)"
    by (rule addParents_distinct) (simp add: dependenciesOrEmpty_upd_same d)
qed simp

lemma storeCZ_commit:
  "updateCellAndDependents sampleEvaluate (Suc (Suc 0)) ''C1'' ''=Z99+1'' Map.empty = Inr storeCZ"
  by (simp add: engine_defs storeCZ_def sampleEvaluate_def fun_eq_iff)

text \<open>
  C7 gives the materialized cell the value 0. The code creates it with the empty string
  as value (\<^verbatim>\<open>{ value: "", formula: "", dependencies: [] }\<close>); 0 is only what a formula
  reads for it.
\<close>

theorem materialized_value_counterexample:
  "Map.empty ''Z99'' = None
   \<and> updateCellAndDependents sampleEvaluate (Suc (Suc 0)) ''C1'' ''=Z99+1'' Map.empty = Inr storeCZ
   \<and> valueOf storeCZ ''Z99'' = Some (Str [])
   \<and> valueOf storeCZ ''Z99'' \<noteq> Some (Num 0)"
  using storeCZ_commit by (simp add: valueOf_def storeCZ_def)

lemma update_absentRejected:
  assumes "updateCellAndDependents ev n s f c = Inr r" and "absentRejectedExcept {s} c"
  shows "absentRejectedExcept {} r"
  using assms(1)
proof (rule update_invariant_rule[where P = "\<lambda>s f c. absentRejectedExcept {s} c"
        and I = "absentRejectedExcept {}"])
  show "absentRejectedExcept {s} c" by (rule assms(2))
next
  fix s f c
  assume pre: "absentRejectedExcept {s} c"
    and re: "\<exists>p\<in>set (parentsOf f). (s, p) \<in> (dependentsGraph c)\<^sup>*"
  let ?r = "c(s \<mapsto> \<lparr>val = Str ''#CIRCULAR'', formula = f,
                     dependencies = Some (dependenciesOrEmpty c s)\<rparr>)"
  have g: "dependentsGraph ?r = dependentsGraph c"
    by (rule dependentsGraph_upd_same)
  show "absentRejectedExcept {} ?r"
    unfolding absentRejectedExcept_def
  proof (intro allI impI)
    fix x y
    assume ref: "references ?r x y" and ny: "y \<notin> dom ?r"
    show "rejectable ?r x"
    proof (cases "x = s")
      case True
      with re show ?thesis
        unfolding rejectable_def g references_upd by auto
    next
      case False
      with ref ny have "references c x y" "y \<notin> dom c"
        by (simp_all add: references_upd)
      with pre False have "rejectable c x"
        by (simp add: absentRejectedExcept_def)
      moreover have "content ?r x = content c x"
        using False by (simp add: content_def)
      moreover have "dependentsGraph c \<subseteq> dependentsGraph ?r"
        by (simp add: g)
      ultimately show ?thesis
        by (rule rejectable_mono)
    qed
  qed
next
  fix s f c u
  assume pre: "absentRejectedExcept {s} c"
    and un: "\<forall>p\<in>set (parentsOf f). (s, p) \<notin> (dependentsGraph c)\<^sup>*"
    and u: "addParents s (parentsOf f)
              (c(s \<mapsto> \<lparr>val = calculateFormula ev f c, formula = f,
                       dependencies = Some (dependenciesOrEmpty c s)\<rparr>)) = Inr u"
  from un have ns: "s \<notin> set (parentsOf f)"
    by (rule unreached_not_self)
  note S = addParents_step[OF u _ ns, simplified]
  have g: "dependentsGraph c \<subseteq> dependentsGraph u"
    using addParents_step_graph[OF u _ ns] by auto
  show "absentRejectedExcept {} u"
    unfolding absentRejectedExcept_def
  proof (intro allI impI)
    fix x y
    assume ref: "references u x y" and ny: "y \<notin> dom u"
    show "rejectable u x"
    proof (cases "x = s")
      case True
      with ref S(1) have "y \<in> set (parentsOf f)"
        by (simp add: references_def)
      with ny S(6) show ?thesis
        by simp
    next
      case False
      from addParents_step_references[OF u _ ns False ref]
      have x: "x \<in> dom c" "content u x = content c x" "references c x y"
        by simp_all
      from ny S(6) have "y \<notin> dom c"
        by simp
      with pre False x(3) have "rejectable c x"
        by (simp add: absentRejectedExcept_def)
      then show ?thesis
        using x(2) g by (rule rejectable_mono)
    qed
  qed
next
  fix st :: cellstore and k :: cellid and cd :: cell
  assume "absentRejectedExcept {} st"
  then show "absentRejectedExcept {k} st"
    by (simp add: absentRejectedExcept_def)
qed

section \<open>Propagation of the error tag\<close>

lemma rejectable_circular:
  assumes "\<exists>p\<in>set (parentsOf f). (s, p) \<in> (dependentsGraph c)\<^sup>*"
  shows "rejectable (c(s \<mapsto> \<lparr>val = v, formula = f,
                            dependencies = Some (dependenciesOrEmpty c s)\<rparr>)) s"
  using assms unfolding rejectable_def dependentsGraph_upd_same references_upd by auto

lemma rejectable_circular_other:
  assumes "rejectable c x" and "x \<noteq> s"
  shows "rejectable (c(s \<mapsto> \<lparr>val = v, formula = f,
                            dependencies = Some (dependenciesOrEmpty c s)\<rparr>)) x"
  using assms(1)
proof (rule rejectable_mono)
  show "content (c(s \<mapsto> \<lparr>val = v, formula = f,
                      dependencies = Some (dependenciesOrEmpty c s)\<rparr>)) x = content c x"
    using assms(2) by (simp add: content_def)
  show "dependentsGraph c \<subseteq> dependentsGraph (c(s \<mapsto> \<lparr>val = v, formula = f,
                      dependencies = Some (dependenciesOrEmpty c s)\<rparr>))"
    by (simp add: dependentsGraph_upd_same)
qed

lemma circular_edgesRecorded:
  assumes pre: "edgesRecordedExcept {s} c"
    and re: "\<exists>p\<in>set (parentsOf f). (s, p) \<in> (dependentsGraph c)\<^sup>*"
  shows "edgesRecordedExcept {} (c(s \<mapsto> \<lparr>val = Str ''#CIRCULAR'', formula = f,
                                     dependencies = Some (dependenciesOrEmpty c s)\<rparr>))"
  unfolding edgesRecordedExcept_def
proof (intro allI impI)
  let ?r = "c(s \<mapsto> \<lparr>val = Str ''#CIRCULAR'', formula = f,
                     dependencies = Some (dependenciesOrEmpty c s)\<rparr>)"
  fix x y assume ref: "references ?r x y"
  show "x \<in> set (dependenciesOrEmpty ?r y) \<or> rejectable ?r x"
  proof (cases "x = s")
    case True
    with re show ?thesis
      by (simp add: rejectable_circular)
  next
    case False
    with ref have "references c x y"
      by (simp add: references_upd)
    with pre False have "x \<in> set (dependenciesOrEmpty c y) \<or> rejectable c x"
      by (simp add: edgesRecordedExcept_def)
    then show ?thesis
      using False rejectable_circular_other[of c x s]
      by (auto simp: dependenciesOrEmpty_upd_same)
  qed
qed

lemma computed_edgesRecorded:
  assumes pre: "edgesRecordedExcept {s} c"
    and un: "\<forall>p\<in>set (parentsOf f). (s, p) \<notin> (dependentsGraph c)\<^sup>*"
    and u: "addParents s (parentsOf f)
              (c(s \<mapsto> \<lparr>val = v, formula = f,
                       dependencies = Some (dependenciesOrEmpty c s)\<rparr>)) = Inr u"
  shows "edgesRecordedExcept {} u"
proof -
  from un have ns: "s \<notin> set (parentsOf f)"
    by (rule unreached_not_self)
  note S = addParents_step[OF u _ ns, simplified]
  have g: "dependentsGraph c \<subseteq> dependentsGraph u"
    using addParents_step_graph[OF u _ ns] by auto
  show ?thesis
    unfolding edgesRecordedExcept_def
  proof (intro allI impI)
    fix x y assume ref: "references u x y"
    show "x \<in> set (dependenciesOrEmpty u y) \<or> rejectable u x"
    proof (cases "x = s")
      case True
      with ref S(1) have "y \<in> set (parentsOf f)"
        by (simp add: references_def)
      with True S(2)[of y] show ?thesis
        by simp
    next
      case False
      from addParents_step_references[OF u _ ns False ref]
      have x: "content u x = content c x" "references c x y"
        by simp_all
      from pre False x(2) have "x \<in> set (dependenciesOrEmpty c y) \<or> rejectable c x"
        by (simp add: edgesRecordedExcept_def)
      then show ?thesis
      proof
        assume "x \<in> set (dependenciesOrEmpty c y)"
        with S(2)[of y] show ?thesis
          by simp
      next
        assume "rejectable c x"
        then have "rejectable u x"
          using x(1) g by (rule rejectable_mono)
        then show ?thesis
          by simp
      qed
    qed
  qed
qed

lemma update_edgesRecorded:
  assumes "updateCellAndDependents ev n s f c = Inr r" and "edgesRecordedExcept {s} c"
  shows "edgesRecordedExcept {} r"
  using assms(1)
proof (rule update_invariant_rule[where P = "\<lambda>s f c. edgesRecordedExcept {s} c"
        and I = "edgesRecordedExcept {}"])
  show "edgesRecordedExcept {s} c" by (rule assms(2))
next
  fix s f c
  assume "edgesRecordedExcept {s} c"
    and "\<exists>p\<in>set (parentsOf f). (s, p) \<in> (dependentsGraph c)\<^sup>*"
  then show "edgesRecordedExcept {} (c(s \<mapsto> \<lparr>val = Str ''#CIRCULAR'', formula = f,
                                     dependencies = Some (dependenciesOrEmpty c s)\<rparr>))"
    by (rule circular_edgesRecorded)
next
  fix s f c u
  assume "edgesRecordedExcept {s} c"
    and "\<forall>p\<in>set (parentsOf f). (s, p) \<notin> (dependentsGraph c)\<^sup>*"
    and "addParents s (parentsOf f)
              (c(s \<mapsto> \<lparr>val = calculateFormula ev f c, formula = f,
                       dependencies = Some (dependenciesOrEmpty c s)\<rparr>)) = Inr u"
  then show "edgesRecordedExcept {} u"
    by (rule computed_edgesRecorded)
next
  fix st :: cellstore and k :: cellid and cd :: cell
  assume "edgesRecordedExcept {} st"
  then show "edgesRecordedExcept {k} st"
    by (simp add: edgesRecordedExcept_def)
qed

lemma committed_edgesRecorded: "c \<in> committed ev \<Longrightarrow> edgesRecordedExcept {} c"
proof (induction rule: committed.induct)
  case initial
  show ?case
    by (simp add: edgesRecordedExcept_def references_def)
next
  case (edit currentCells n cellId newText finalState)
  from edit.hyps(2) have "updateCellAndDependents ev n cellId newText currentCells = Inr finalState"
    by (simp add: handleBlur_after_input)
  moreover have "edgesRecordedExcept {cellId} currentCells"
    using edit.IH by (simp add: edgesRecordedExcept_def)
  ultimately show ?case
    by (rule update_edgesRecorded)
next
  case (blur currentCells n cellId finalState)
  from blur.hyps(2) have "updateCellAndDependents ev n cellId
      (case currentCells cellId of None \<Rightarrow> [] | Some x \<Rightarrow> formula x) currentCells = Inr finalState"
    by (simp add: handleBlur_def)
  moreover have "edgesRecordedExcept {cellId} currentCells"
    using blur.IH by (simp add: edgesRecordedExcept_def)
  ultimately show ?case
    by (rule update_edgesRecorded)
qed

lemma circular_poisonSettled:
  assumes ok: "poisonSettledExcept (insert s B) c"
    and re: "\<exists>p\<in>set (parentsOf f). (s, p) \<in> (dependentsGraph c)\<^sup>*"
  shows "poisonSettledExcept B (c(s \<mapsto> \<lparr>val = Str ''#CIRCULAR'', formula = f,
                                      dependencies = Some (dependenciesOrEmpty c s)\<rparr>))"
  unfolding poisonSettledExcept_def
proof (intro allI impI)
  let ?r = "c(s \<mapsto> \<lparr>val = Str ''#CIRCULAR'', formula = f,
                     dependencies = Some (dependenciesOrEmpty c s)\<rparr>)"
  fix x assume xB: "x \<notin> B"
  show "poisonSettled ?r x"
  proof (cases "x = s")
    case True
    with re show ?thesis
      by (simp add: poisonSettled_def rejectable_circular)
  next
    case False
    with xB ok have okx: "poisonSettled c x"
      by (simp add: poisonSettledExcept_def)
    show ?thesis
      unfolding poisonSettled_def
    proof (intro impI)
      assume "\<exists>y. references ?r x y \<and> valueOf ?r y = Some (Str ''#ERROR'')"
      then obtain y where ref: "references ?r x y" and ey: "valueOf ?r y = Some (Str ''#ERROR'')"
        by blast
      from ref False have rc: "references c x y"
        by (simp add: references_upd)
      from ey have "valueOf c y = Some (Str ''#ERROR'')"
        by (cases "y = s") (simp_all add: valueOf_def)
      with okx rc have "valueOf c x = Some (Str ''#ERROR'') \<or> rejectable c x"
        unfolding poisonSettled_def by blast
      then show "valueOf ?r x = Some (Str ''#ERROR'') \<or> rejectable ?r x"
        using False rejectable_circular_other[of c x s]
        by (auto simp: valueOf_def)
    qed
  qed
qed

lemma computed_poisonSettled:
  assumes ec: "edgesRecordedExcept {s} c"
    and ok: "poisonSettledExcept (insert s B) c"
    and ns: "s \<notin> set (parentsOf f)"
    and u: "addParents s (parentsOf f)
              (c(s \<mapsto> \<lparr>val = calculateFormula ev f c, formula = f,
                       dependencies = Some (dependenciesOrEmpty c s)\<rparr>)) = Inr u"
  shows "poisonSettledExcept (B \<union> set (dependenciesOrEmpty u s)) u"
  unfolding poisonSettledExcept_def
proof (intro allI impI)
  note S = addParents_step[OF u _ ns, simplified]
  have g: "dependentsGraph c \<subseteq> dependentsGraph u"
    using addParents_step_graph[OF u _ ns] by auto
  fix x assume xB: "x \<notin> B \<union> set (dependenciesOrEmpty u s)"
  have err: "valueOf c y = Some (Str ''#ERROR'')"
    if "valueOf u y = Some (Str ''#ERROR'')" "y \<noteq> s" for y
  proof (cases "y \<in> dom c")
    case True
    with that(2) have "content u y = content c y"
      by (rule S(3))
    from content_valueOf[OF this] that(1) show ?thesis
      by simp
  next
    case False
    show ?thesis
    proof (cases "y \<in> set (parentsOf f)")
      case True
      with that(2) False have "content u y = Some (Str [], [])"
        by (rule S(4))
      with that(1) show ?thesis
        by (cases "u y") (auto simp: content_def valueOf_def)
    next
      case np: False
      with that(2) have "u y = c y"
        by (rule S(5))
      with that(1) show ?thesis
        by (simp add: valueOf_def)
    qed
  qed
  show "poisonSettled u x"
    unfolding poisonSettled_def
  proof (intro impI)
    assume "\<exists>y. references u x y \<and> valueOf u y = Some (Str ''#ERROR'')"
    then obtain y where ref: "references u x y" and ey: "valueOf u y = Some (Str ''#ERROR'')"
      by blast
    show "valueOf u x = Some (Str ''#ERROR'') \<or> rejectable u x"
    proof (cases "x = s")
      case True
      with ref S(1) have yp: "y \<in> set (parentsOf f)"
        by (simp add: references_def)
      with ns have "y \<noteq> s"
        by auto
      with ey have "valueOf c y = Some (Str ''#ERROR'')"
        by (rule err)
      then have "valueOf c y = Some (Str ''#ERROR'') \<or> valueOf c y = Some (Str ''#CIRCULAR'')"
        by simp
      with references_startsWithEq[OF yp] yp
      have "calculateFormulaLog ev f c = (Str ''#ERROR'', [])"
        by (rule calculateFormulaLog_poisoned)
      then have "calculateFormula ev f c = Str ''#ERROR''"
        by (simp add: calculateFormula_def)
      with S(1) True show ?thesis
        by (simp add: valueOf_def)
    next
      case False
      from addParents_step_references[OF u _ ns False ref]
      have x: "content u x = content c x" "references c x y"
        by simp_all
      have vx: "valueOf u x = valueOf c x"
        by (rule content_valueOf[OF x(1)])
      have rej: "rejectable u x" if "rejectable c x"
        using that x(1) g by (rule rejectable_mono)
      show ?thesis
      proof (cases "y = s")
        case True
        from ec False x(2) True have "x \<in> set (dependenciesOrEmpty c s) \<or> rejectable c x"
          by (simp add: edgesRecordedExcept_def)
        then show ?thesis
        proof
          assume "x \<in> set (dependenciesOrEmpty c s)"
          with S(2)[of s] have "x \<in> set (dependenciesOrEmpty u s)"
            by simp
          with xB show ?thesis
            by simp
        next
          assume "rejectable c x"
          then show ?thesis
            by (simp add: rej)
        qed
      next
        case ys: False
        with ey have "valueOf c y = Some (Str ''#ERROR'')"
          by (rule err)
        moreover have "poisonSettled c x"
          using ok xB False by (simp add: poisonSettledExcept_def)
        ultimately have "valueOf c x = Some (Str ''#ERROR'') \<or> rejectable c x"
          using x(2) unfolding poisonSettled_def by blast
        then show ?thesis
          using vx rej by auto
      qed
    qed
  qed
qed

lemma refreshChildren_poisonSettled:
  assumes IH: "\<And>k g st r' B. updateCellAndDependents ev n k g st = Inr r'
      \<Longrightarrow> edgesRecordedExcept {k} st \<Longrightarrow> poisonSettledExcept (insert k B) st
      \<Longrightarrow> poisonSettledExcept B r'"
  shows "refreshChildren (\<lambda>k g st. updateCellAndDependents ev n k g st) ks st = Inr r
      \<Longrightarrow> edgesRecordedExcept {} st \<Longrightarrow> poisonSettledExcept (B \<union> set ks) st
      \<Longrightarrow> poisonSettledExcept B r"
proof (induction ks arbitrary: st)
  case Nil
  then show ?case by simp
next
  case (Cons k ks)
  show ?case
  proof (cases "st k")
    case None
    then have "poisonSettled st k"
      by (simp add: poisonSettled_def references_def)
    with Cons.prems(3) have "poisonSettledExcept (B \<union> set ks) st"
      by (auto simp: poisonSettledExcept_def)
    moreover from None Cons.prems(1) have
      "refreshChildren (\<lambda>k g st. updateCellAndDependents ev n k g st) ks st = Inr r"
      by simp
    ultimately show ?thesis
      using Cons.prems(2) by (intro Cons.IH)
  next
    case (Some cd)
    with Cons.prems(1) obtain r' where
      r': "updateCellAndDependents ev n k (formula cd) st = Inr r'"
      and rest: "refreshChildren (\<lambda>k g st. updateCellAndDependents ev n k g st) ks (st ++ r') = Inr r"
      by (auto split: sum.splits)
    have ek: "edgesRecordedExcept {k} st"
      using Cons.prems(2) by (simp add: edgesRecordedExcept_def)
    have "poisonSettledExcept (insert k (B \<union> set ks)) st"
      using Cons.prems(3) by (simp add: poisonSettledExcept_def)
    with r' ek have ok': "poisonSettledExcept (B \<union> set ks) r'"
      by (rule IH)
    have ec': "edgesRecordedExcept {} r'"
      using r' ek by (rule update_edgesRecorded)
    from rest have "refreshChildren (\<lambda>k g st. updateCellAndDependents ev n k g st) ks r' = Inr r"
      by (simp add: update_merge[OF r'])
    then show ?thesis
      using ec' ok' by (rule Cons.IH)
  qed
qed

lemma update_poisonSettled:
  "updateCellAndDependents ev n s f c = Inr r \<Longrightarrow> edgesRecordedExcept {s} c
     \<Longrightarrow> poisonSettledExcept (insert s B) c \<Longrightarrow> poisonSettledExcept B r"
proof (induction n arbitrary: s f c r B)
  case 0
  then show ?case by simp
next
  case (Suc n)
  from Suc.prems(1) show ?case
  proof (cases rule: update_Suc_cases)
    case circular
    from firstTrue_True[OF circular(1)] obtain p where
      "p \<in> set (parentsOf f)" "hasCircularDependency n s p c = Inr True"
      by blast
    then have "\<exists>p\<in>set (parentsOf f). (s, p) \<in> (dependentsGraph c)\<^sup>*"
      using hasCircularDependency_reaches[of n s p c True] by auto
    with Suc.prems(3) show ?thesis
      unfolding circular(2) by (rule circular_poisonSettled)
  next
    case (computed u)
    have un: "\<forall>p\<in>set (parentsOf f). (s, p) \<notin> (dependentsGraph c)\<^sup>*"
    proof
      fix p assume "p \<in> set (parentsOf f)"
      with computed(1) have "hasCircularDependency n s p c = Inr False"
        by (rule firstTrue_False)
      from hasCircularDependency_reaches[OF this] show "(s, p) \<notin> (dependentsGraph c)\<^sup>*"
        by simp
    qed
    then have ns: "s \<notin> set (parentsOf f)"
      by (rule unreached_not_self)
    have ecu: "edgesRecordedExcept {} u"
      using Suc.prems(2) un computed(2) by (rule computed_edgesRecorded)
    have oku: "poisonSettledExcept (B \<union> set (dependenciesOrEmpty u s)) u"
      using Suc.prems(2,3) ns computed(2) by (rule computed_poisonSettled)
    show ?thesis
      using computed(3) ecu oku
    proof (rule refreshChildren_poisonSettled[rotated])
      fix k g st r' B
      assume "updateCellAndDependents ev n k g st = Inr r'"
        and "edgesRecordedExcept {k} st" and "poisonSettledExcept (insert k B) st"
      then show "poisonSettledExcept B r'"
        by (rule Suc.IH)
    qed
  qed
qed

lemma committed_poisonSettled: "c \<in> committed ev \<Longrightarrow> poisonSettledExcept {} c"
proof (induction rule: committed.induct)
  case initial
  show ?case
    by (simp add: poisonSettledExcept_def poisonSettled_def references_def)
next
  case (edit currentCells n cellId newText finalState)
  from edit.hyps(2) have "updateCellAndDependents ev n cellId newText currentCells = Inr finalState"
    by (simp add: handleBlur_after_input)
  moreover have "edgesRecordedExcept {cellId} currentCells"
    using committed_edgesRecorded[OF edit.hyps(1)] by (simp add: edgesRecordedExcept_def)
  moreover have "poisonSettledExcept {cellId} currentCells"
    using edit.IH by (simp add: poisonSettledExcept_def)
  ultimately show ?case
    by (rule update_poisonSettled)
next
  case (blur currentCells n cellId finalState)
  from blur.hyps(2) have "updateCellAndDependents ev n cellId
      (case currentCells cellId of None \<Rightarrow> [] | Some x \<Rightarrow> formula x) currentCells = Inr finalState"
    by (simp add: handleBlur_def)
  moreover have "edgesRecordedExcept {cellId} currentCells"
    using committed_edgesRecorded[OF blur.hyps(1)] by (simp add: edgesRecordedExcept_def)
  moreover have "poisonSettledExcept {cellId} currentCells"
    using blur.IH by (simp add: poisonSettledExcept_def)
  ultimately show ?case
    by (rule update_poisonSettled)
qed

lemma update_content_frame:
  "updateCellAndDependents ev n k g c = Inr r \<Longrightarrow> x \<in> dom c
     \<Longrightarrow> (k, x) \<notin> (dependentsGraph c)\<^sup>* \<Longrightarrow> content r x = content c x"
proof (induction n arbitrary: k g c r)
  case 0
  then show ?case by simp
next
  case (Suc n)
  from Suc.prems(3) have xk: "x \<noteq> k"
    by auto
  from Suc.prems(1) show ?case
  proof (cases rule: update_Suc_cases)
    case circular
    with xk show ?thesis
      by (simp add: content_def)
  next
    case (computed u)
    have un: "\<forall>p\<in>set (parentsOf g). (k, p) \<notin> (dependentsGraph c)\<^sup>*"
    proof
      fix p assume "p \<in> set (parentsOf g)"
      with computed(1) have "hasCircularDependency n k p c = Inr False"
        by (rule firstTrue_False)
      from hasCircularDependency_reaches[OF this] show "(k, p) \<notin> (dependentsGraph c)\<^sup>*"
        by simp
    qed
    then have ns: "k \<notin> set (parentsOf g)"
      by (rule unreached_not_self)
    note S = addParents_step[OF computed(2) _ ns, simplified]
    have gu: "dependentsGraph u = dependentsGraph c \<union> set (parentsOf g) \<times> {k}"
      using computed(2) _ ns by (rule addParents_step_graph) simp
    let ?D = "dependentsGraph c \<union> {(p, d). (k, d) \<in> (dependentsGraph c)\<^sup>*}"
    let ?J = "\<lambda>st. content st x = content c x \<and> x \<in> dom st
                \<and> dependentsGraph u \<subseteq> dependentsGraph st \<and> dependentsGraph st \<subseteq> ?D"
    have "?J r"
      using computed(3)
    proof (rule refreshChildren_update_invariant[where I = ?J])
      have "content u x = content c x"
        using xk Suc.prems(2) by (rule S(3))
      moreover have "x \<in> dom u"
        using Suc.prems(2) by (simp add: S(6))
      moreover have "dependentsGraph u \<subseteq> ?D"
        unfolding gu by auto
      ultimately show "?J u"
        by simp
    next
      fix k' cd st' r'
      assume k': "k' \<in> set (dependenciesOrEmpty u k)" and J: "?J st'"
        and r': "updateCellAndDependents ev n k' (formula cd) st' = Inr r'"
      from J have sub: "dependentsGraph st' \<subseteq> ?D"
        by simp
      from k' have "(k, k') \<in> dependentsGraph u"
        by (simp add: mem_graph)
      with J have e: "(k, k') \<in> dependentsGraph st'"
        by blast
      have down: "(k, d) \<in> (dependentsGraph c)\<^sup>*" if "(k', d) \<in> (dependentsGraph st')\<^sup>*" for d
      proof -
        from e that have "(k, d) \<in> (dependentsGraph st')\<^sup>*"
          by (rule converse_rtrancl_into_rtrancl)
        with sub show ?thesis
          by (rule reach_edges_into_descendants)
      qed
      have nr: "(k', x) \<notin> (dependentsGraph st')\<^sup>*"
        using down[of x] Suc.prems(3) by blast
      from J have "x \<in> dom st'"
        by simp
      with r' have "content r' x = content st' x"
        using nr by (rule Suc.IH)
      moreover have "x \<in> dom r'"
        using update_dom[OF r'] J by auto
      moreover note G = update_graph[OF r']
      have "dependentsGraph u \<subseteq> dependentsGraph r'"
        using G J by blast
      moreover have "dependentsGraph r' \<subseteq> ?D"
      proof
        fix e assume "e \<in> dependentsGraph r'"
        with G have "e \<in> dependentsGraph st' \<union> {(p, d). (k', d) \<in> (dependentsGraph st')\<^sup>*}"
          by blast
        then show "e \<in> ?D"
        proof
          assume "e \<in> dependentsGraph st'"
          with sub show ?thesis by blast
        next
          assume "e \<in> {(p, d). (k', d) \<in> (dependentsGraph st')\<^sup>*}"
          then obtain p d where "e = (p, d)" "(k', d) \<in> (dependentsGraph st')\<^sup>*"
            by auto
          with down[of d] show ?thesis
            by simp
        qed
      qed
      ultimately show "?J r'"
        using J by simp
    qed
    then show ?thesis
      by simp
  qed
qed

lemma update_start_value:
  assumes ac: "acyclic (dependentsGraph c)"
    and upd: "updateCellAndDependents ev n x f c = Inr r"
  shows "valueOf r x = Some (if \<exists>p\<in>set (parentsOf f). (x, p) \<in> (dependentsGraph c)\<^sup>*
                             then Str ''#CIRCULAR'' else calculateFormula ev f c)"
proof (cases n)
  case 0
  with upd show ?thesis by simp
next
  case (Suc m)
  from upd[unfolded Suc] show ?thesis
  proof (cases rule: update_Suc_cases)
    case circular
    from firstTrue_True[OF circular(1)] obtain p where
      "p \<in> set (parentsOf f)" "hasCircularDependency m x p c = Inr True"
      by blast
    then have "\<exists>p\<in>set (parentsOf f). (x, p) \<in> (dependentsGraph c)\<^sup>*"
      using hasCircularDependency_reaches[of m x p c True] by auto
    then show ?thesis
      by (simp add: circular(2) valueOf_def)
  next
    case (computed u)
    have un: "\<forall>p\<in>set (parentsOf f). (x, p) \<notin> (dependentsGraph c)\<^sup>*"
    proof
      fix p assume "p \<in> set (parentsOf f)"
      with computed(1) have "hasCircularDependency m x p c = Inr False"
        by (rule firstTrue_False)
      from hasCircularDependency_reaches[OF this] show "(x, p) \<notin> (dependentsGraph c)\<^sup>*"
        by simp
    qed
    then have ns: "x \<notin> set (parentsOf f)"
      by (rule unreached_not_self)
    note S = addParents_step[OF computed(2) _ ns, simplified]
    have gu: "dependentsGraph u = dependentsGraph c \<union> set (parentsOf f) \<times> {x}"
      using computed(2) _ ns by (rule addParents_step_graph) simp
    have acu: "acyclic (dependentsGraph u)"
      unfolding gu using ac un by (rule acyclic_edges_into_start)
    let ?J = "\<lambda>st. content st x = content u x \<and> x \<in> dom st
                \<and> dependentsGraph u \<subseteq> dependentsGraph st \<and> acyclic (dependentsGraph st)"
    have "?J r"
      using computed(3)
    proof (rule refreshChildren_update_invariant[where I = ?J])
      show "?J u"
        using acu S(1) by auto
    next
      fix k cd st' r'
      assume k: "k \<in> set (dependenciesOrEmpty u x)" and J: "?J st'"
        and r': "updateCellAndDependents ev m k (formula cd) st' = Inr r'"
      from k have "(x, k) \<in> dependentsGraph u"
        by (simp add: mem_graph)
      with J have e: "(x, k) \<in> dependentsGraph st'"
        by blast
      have nr: "(k, x) \<notin> (dependentsGraph st')\<^sup>*"
      proof
        assume "(k, x) \<in> (dependentsGraph st')\<^sup>*"
        with e have "(x, x) \<in> (dependentsGraph st')\<^sup>+"
          by (rule rtrancl_into_trancl2)
        with J show False
          by (simp add: acyclic_def)
      qed
      from J have "x \<in> dom st'"
        by simp
      with r' have "content r' x = content st' x"
        using nr by (rule update_content_frame)
      moreover have "x \<in> dom r'"
        using update_dom[OF r'] J by auto
      moreover note G = update_graph[OF r']
      have "dependentsGraph u \<subseteq> dependentsGraph r'"
        using G J by blast
      moreover have "acyclic (dependentsGraph r')"
        using G J by blast
      ultimately show "?J r'"
        using J by simp
    qed
    then have "content r x = content u x"
      by simp
    from content_valueOf[OF this] S(1) un show ?thesis
      by (simp add: valueOf_def)
  qed
qed

lemma accepted_chain_poisoned:
  assumes ok: "poisonSettledExcept {} c"
    and ch: "(x, y) \<in> (acceptedReferences c)\<^sup>*"
    and e: "valueOf c y = Some (Str ''#ERROR'')"
  shows "valueOf c x = Some (Str ''#ERROR'')"
  using ch e
proof (induction rule: converse_rtrancl_induct)
  case base
  then show ?case by simp
next
  case (step x z)
  from step.hyps(1) have r: "references c x z" and nr: "\<not> rejectable c x"
    by (simp_all add: acceptedReferences_def)
  from step.IH[OF step.prems] have "valueOf c z = Some (Str ''#ERROR'')" .
  with r have "\<exists>y. references c x y \<and> valueOf c y = Some (Str ''#ERROR'')"
    by blast
  moreover from ok have "poisonSettled c x"
    by (simp add: poisonSettledExcept_def)
  ultimately have "valueOf c x = Some (Str ''#ERROR'') \<or> rejectable c x"
    unfolding poisonSettled_def by (rule rev_mp)
  with nr show ?case
    by simp
qed

lemma errStoreC_commit:
  "handleBlur sampleEvaluate (Suc (Suc (Suc 0))) ''C1'' (handleInputChange ''C1'' ''=B1+1'' errStore)
     = Inr errStoreC"
  by (simp add: engine_defs errStore_def errStoreC_def sampleEvaluate_def fun_eq_iff)

lemma errStoreC_committed: "errStoreC \<in> committed sampleEvaluate"
  using errStore_committed errStoreC_commit by (rule committed.edit)

lemma acyclic_no_back_edge:
  assumes "acyclic E" and "(a, b) \<in> E"
  shows "(b, a) \<notin> E\<^sup>*"
proof
  assume "(b, a) \<in> E\<^sup>*"
  with assms(2) have "(a, a) \<in> E\<^sup>+"
    by (rule rtrancl_into_trancl2)
  with assms(1) show False
    by (simp add: acyclic_def)
qed

lemma errStoreC_chain: "(''C1'', ''A1'') \<in> (acceptedReferences errStoreC)\<^sup>*"
proof -
  have ac: "acyclic (dependentsGraph errStoreC)"
    using errStoreC_committed by (rule committed_acyclic)
  have pB: "parentsOf ''=B1+1'' = [''B1'']" and pA: "parentsOf ''=A1+1'' = [''A1'']"
    by (simp_all add: engine_defs)
  have "(''A1'', ''B1'') \<in> dependentsGraph errStoreC"
    by (simp add: mem_graph dependenciesOrEmpty_def errStoreC_def)
  with ac have "(''B1'', ''A1'') \<notin> (dependentsGraph errStoreC)\<^sup>*"
    by (rule acyclic_no_back_edge)
  moreover have "\<And>p. references errStoreC ''B1'' p \<longleftrightarrow> p = ''A1''"
    by (simp add: references_def errStoreC_def pA)
  ultimately have b: "(''B1'', ''A1'') \<in> acceptedReferences errStoreC"
    by (simp add: acceptedReferences_def rejectable_def)
  have "(''B1'', ''C1'') \<in> dependentsGraph errStoreC"
    by (simp add: mem_graph dependenciesOrEmpty_def errStoreC_def)
  with ac have "(''C1'', ''B1'') \<notin> (dependentsGraph errStoreC)\<^sup>*"
    by (rule acyclic_no_back_edge)
  moreover have "\<And>p. references errStoreC ''C1'' p \<longleftrightarrow> p = ''B1''"
    by (simp add: references_def errStoreC_def pB)
  ultimately have "(''C1'', ''B1'') \<in> acceptedReferences errStoreC"
    by (simp add: acceptedReferences_def rejectable_def)
  then have "(''C1'', ''B1'') \<in> (acceptedReferences errStoreC)\<^sup>*"
    by (rule r_into_rtrancl)
  then show ?thesis
    using b by (rule rtrancl_into_rtrancl)
qed

lemma brokenStore_commit:
  "handleBlur sampleEvaluate (Suc (Suc (Suc 0))) ''B1'' (handleInputChange ''B1'' ''=1+'' storeAB)
     = Inr brokenStore"
  by (simp add: engine_defs storeAB_def brokenStore_def sampleEvaluate_def fun_eq_iff)

lemma brokenStore_committed: "brokenStore \<in> committed sampleEvaluate"
  using storeAB_committed brokenStore_commit by (rule committed.edit)

lemma staleRejectedStore_commit:
  "handleBlur sampleEvaluate (Suc (Suc (Suc 0))) ''A1'' (handleInputChange ''A1'' ''=B1+1'' brokenStore)
     = Inr staleRejectedStore"
  by (simp add: engine_defs brokenStore_def staleRejectedStore_def sampleEvaluate_def fun_eq_iff)

lemma staleRejectedStore_committed: "staleRejectedStore \<in> committed sampleEvaluate"
  using brokenStore_committed staleRejectedStore_commit by (rule committed.edit)

section \<open>A reference to an absent cell\<close>

lemma content_formula:
  "content c k = Some (w, f) \<Longrightarrow> c k = Some cd \<Longrightarrow> formula cd = f \<and> val cd = w"
  by (simp add: content_def)

lemma update_materializedIn:
  assumes ez: "e \<noteq> z" and pf: "parentsOf f0 = [z]"
    and calc: "\<And>st. valueOrZero st z = Num 0 \<Longrightarrow> calculateFormula ev f0 st = v"
    and upd: "updateCellAndDependents ev n k g c = Inr r"
    and pre: "materializedIn z e v f0 c \<and> (\<exists>cd. c k = Some cd \<and> g = formula cd)"
  shows "materializedIn z e v f0 r"
  using upd
proof (rule update_invariant_rule[where
      P = "\<lambda>k g c. materializedIn z e v f0 c \<and> (\<exists>cd. c k = Some cd \<and> g = formula cd)"
      and I = "materializedIn z e v f0"])
  show "materializedIn z e v f0 c \<and> (\<exists>cd. c k = Some cd \<and> g = formula cd)"
    by (rule pre)
next
  fix st :: cellstore and k :: cellid and cd :: cell
  assume "materializedIn z e v f0 st" and "st k = Some cd"
  then show "materializedIn z e v f0 st \<and> (\<exists>cd'. st k = Some cd' \<and> formula cd = formula cd')"
    by simp
next
  fix k g c
  assume P: "materializedIn z e v f0 c \<and> (\<exists>cd. c k = Some cd \<and> g = formula cd)"
    and re: "\<exists>p\<in>set (parentsOf g). (k, p) \<in> (dependentsGraph c)\<^sup>*"
  then have K: "content c z = Some (Str [], [])" "e \<in> set (dependenciesOrEmpty c z)"
    "content c e = Some (v, f0)" "z \<notin> Range (dependentsGraph c)"
    by (simp_all add: materializedIn_def)
  from P obtain cd where cd: "c k = Some cd" "g = formula cd"
    by blast
  let ?r = "c(k \<mapsto> \<lparr>val = Str ''#CIRCULAR'', formula = g,
                     dependencies = Some (dependenciesOrEmpty c k)\<rparr>)"
  have g: "dependentsGraph ?r = dependentsGraph c"
    by (rule dependentsGraph_upd_same)
  have kz: "k \<noteq> z"
  proof
    assume "k = z"
    with K(1) cd have "g = []"
      using content_formula[of c z "Str []" "[]" cd] by simp
    with re show False by (simp add: parentsOf_Nil)
  qed
  have ke: "k \<noteq> e"
  proof
    assume "k = e"
    with K(3) cd have "g = f0" by (simp add: content_def)
    with re pf \<open>k = e\<close> have "(e, z) \<in> (dependentsGraph c)\<^sup>*" by simp
    with not_reached_outside_Range[OF K(4) ez] show False
      by simp
  qed
  show "materializedIn z e v f0 ?r"
    unfolding materializedIn_def
  proof (intro conjI)
    show "content ?r z = Some (Str [], [])"
      using kz K(1) by (simp add: content_def)
    show "e \<in> set (dependenciesOrEmpty ?r z)"
      using K(2) by (simp add: dependenciesOrEmpty_upd_same)
    show "content ?r e = Some (v, f0)"
      using ke K(3) by (simp add: content_def)
    show "z \<notin> Range (dependentsGraph ?r)"
      using K(4) by (simp add: g)
  qed
next
  fix k g c u
  assume P: "materializedIn z e v f0 c \<and> (\<exists>cd. c k = Some cd \<and> g = formula cd)"
    and un: "\<forall>p\<in>set (parentsOf g). (k, p) \<notin> (dependentsGraph c)\<^sup>*"
    and u: "addParents k (parentsOf g)
              (c(k \<mapsto> \<lparr>val = calculateFormula ev g c, formula = g,
                       dependencies = Some (dependenciesOrEmpty c k)\<rparr>)) = Inr u"
  then have K: "content c z = Some (Str [], [])" "e \<in> set (dependenciesOrEmpty c z)"
    "content c e = Some (v, f0)" "z \<notin> Range (dependentsGraph c)"
    by (simp_all add: materializedIn_def)
  from P obtain cd where cd: "c k = Some cd" "g = formula cd"
    by blast
  from un have nk: "k \<notin> set (parentsOf g)"
    by (rule unreached_not_self)
  note S = addParents_step[OF u _ nk, simplified]
  have gu: "dependentsGraph u = dependentsGraph c \<union> set (parentsOf g) \<times> {k}"
    using u _ nk by (rule addParents_step_graph) simp
  have zdom: "z \<in> dom c" and edom: "e \<in> dom c"
    using K(1,3) by (auto simp: content_def)
  have valz: "valueOrZero c z = Num 0"
    using K(1) zdom by (auto simp: valueOrZero_def truthy_def content_def)
  have gz: "g = []" if "k = z"
    using that K(1) cd content_formula[of c z "Str []" "[]" cd] by simp
  have uz: "content u z = Some (Str [], [])"
  proof (cases "k = z")
    case True
    then have "calculateFormula ev g c = Str []"
      by (simp add: gz calculateFormula_def calculateFormulaLog_def)
    with S(1) True gz show ?thesis
      by (simp add: content_def)
  next
    case False
    then have "content u z = content c z"
      using zdom by (intro S(3)) auto
    with K(1) show ?thesis by simp
  qed
  have ud: "e \<in> set (dependenciesOrEmpty u z)"
    using K(2) by (simp add: S(2))
  have ue: "content u e = Some (v, f0)"
  proof (cases "k = e")
    case True
    with K(3) cd have "g = f0" by (simp add: content_def)
    with calc[OF valz] S(1) True show ?thesis
      by (simp add: content_def)
  next
    case False
    then have "content u e = content c e"
      using edom by (intro S(3)) auto
    with K(3) show ?thesis by simp
  qed
  have ur: "z \<notin> Range (dependentsGraph u)"
  proof (cases "k = z")
    case True
    with K(4) show ?thesis
      by (simp add: gu gz parentsOf_Nil)
  next
    case False
    with K(4) show ?thesis
      by (auto simp: gu)
  qed
  show "materializedIn z e v f0 u"
    unfolding materializedIn_def using uz ud ue ur by simp
qed

lemma materialize_first_step:
  assumes ez: "e \<noteq> z" and pf: "parentsOf f0 = [z]"
    and absent: "c z = None"
    and u: "addParents e (parentsOf f0)
              (c(e \<mapsto> \<lparr>val = w, formula = f0,
                       dependencies = Some (dependenciesOrEmpty c e)\<rparr>)) = Inr u"
  shows "u = (c(e \<mapsto> \<lparr>val = w, formula = f0, dependencies = Some (dependenciesOrEmpty c e)\<rparr>))
              (z \<mapsto> \<lparr>val = Str [], formula = [], dependencies = Some [e]\<rparr>)"
    and "dependentsGraph u = dependentsGraph c \<union> {z} \<times> {e}"
proof -
  let ?c1 = "c(e \<mapsto> \<lparr>val = w, formula = f0, dependencies = Some (dependenciesOrEmpty c e)\<rparr>)"
  have "addParents e [z] ?c1
      = Inr (?c1(z \<mapsto> \<lparr>val = Str [], formula = [], dependencies = Some [e]\<rparr>))"
    using ez absent by (simp add: materialize_def pushDependent_def emptyCell_def)
  with u show "u = ?c1(z \<mapsto> \<lparr>val = Str [], formula = [], dependencies = Some [e]\<rparr>)"
    by (simp add: pf)
  show "dependentsGraph u = dependentsGraph c \<union> {z} \<times> {e}"
    using addParents_graph[OF u] by (simp add: pf dependentsGraph_upd_same)
qed

lemma materialize_commit_in:
  assumes ez: "e \<noteq> z" and pf: "parentsOf f0 = [z]"
    and calc: "\<And>st. valueOrZero st z = Num 0 \<Longrightarrow> calculateFormula ev f0 st = v"
    and absent: "c z = None" and zr: "z \<notin> Range (dependentsGraph c)"
    and upd: "updateCellAndDependents ev n e f0 c = Inr r"
  shows "materializedIn z e v f0 r"
proof -
  from upd obtain m where m: "updateCellAndDependents ev (Suc m) e f0 c = Inr r"
    by (cases n) auto
  from zr have nr: "(e, z) \<notin> (dependentsGraph c)\<^sup>*"
    using ez by (rule not_reached_outside_Range)
  from m show ?thesis
  proof (cases rule: update_Suc_cases)
    case circular
    from firstTrue_True[OF circular(1)] have "hasCircularDependency m e z c = Inr True"
      by (simp add: pf)
    from hasCircularDependency_reaches[OF this] nr show ?thesis
      by simp
  next
    case (computed u)
    have v: "calculateFormula ev f0 c = v"
      using absent by (intro calc) (simp add: valueOrZero_def)
    note U = materialize_first_step[OF ez pf absent computed(2)]
    have Ku: "materializedIn z e v f0 u"
      unfolding materializedIn_def
    proof (intro conjI)
      show "content u z = Some (Str [], [])"
        by (simp add: U(1) content_def)
      show "e \<in> set (dependenciesOrEmpty u z)"
        by (simp add: U(1) dependenciesOrEmpty_def)
      show "content u e = Some (v, f0)"
        using ez by (simp add: U(1) content_def v)
      show "z \<notin> Range (dependentsGraph u)"
        using zr ez by (auto simp: U(2))
    qed
    from computed(3) Ku show ?thesis
    proof (rule refreshChildren_update_invariant)
      fix k cd st' r'
      assume "materializedIn z e v f0 st'" and "st' k = Some cd"
        and "updateCellAndDependents ev m k (formula cd) st' = Inr r'"
      then show "materializedIn z e v f0 r'"
        using update_materializedIn[OF ez pf calc] by blast
    qed
  qed
qed

lemma materialize_commit:
  assumes ez: "e \<noteq> z" and pf: "parentsOf f0 = [z]"
    and calc: "\<And>st. valueOrZero st z = Num 0 \<Longrightarrow> calculateFormula ev f0 st = v"
    and absent: "c z = None" and zr: "z \<notin> Range (dependentsGraph c)"
    and ar: "\<And>x. x \<noteq> e \<Longrightarrow> references c x z \<Longrightarrow> rejectable c x"
    and upd: "updateCellAndDependents ev n e f0 c = Inr r"
  shows "materializedFor z e v f0 r"
proof -
  from upd obtain m where m: "updateCellAndDependents ev (Suc m) e f0 c = Inr r"
    by (cases n) auto
  from zr have nr: "(e, z) \<notin> (dependentsGraph c)\<^sup>*"
    using ez by (rule not_reached_outside_Range)
  from m show ?thesis
  proof (cases rule: update_Suc_cases)
    case circular
    from firstTrue_True[OF circular(1)] have "hasCircularDependency m e z c = Inr True"
      by (simp add: pf)
    from hasCircularDependency_reaches[OF this] nr show ?thesis
      by simp
  next
    case (computed u)
    have v: "calculateFormula ev f0 c = v"
      using absent by (intro calc) (simp add: valueOrZero_def)
    note U = materialize_first_step[OF ez pf absent computed(2)]
    have Ku: "materializedFor z e v f0 u"
      unfolding materializedFor_def
    proof (intro conjI allI impI)
      show "u z = Some \<lparr>val = Str [], formula = [], dependencies = Some [e]\<rparr>"
        by (simp add: U(1))
      show "content u e = Some (v, f0)"
        using ez by (simp add: U(1) content_def v)
      show "z \<notin> Range (dependentsGraph u)"
        using zr ez by (auto simp: U(2))
    next
      fix x assume xe: "x \<noteq> e" and ref: "references u x z"
      have xz: "x \<noteq> z"
        using ref by (auto simp: U(1) references_def parentsOf_Nil)
      with xe ref have rc: "references c x z"
        by (simp add: U(1) references_def)
      with xe have "rejectable c x"
        by (rule ar)
      moreover have "content u x = content c x"
        using xe xz by (simp add: U(1) content_def)
      moreover have "dependentsGraph c \<subseteq> dependentsGraph u"
        by (auto simp: U(2))
      ultimately show "rejectable u x"
        by (rule rejectable_mono)
    qed
    from computed(3) Ku show ?thesis
    proof (rule refreshChildren_update_invariant)
      fix k cd st' r'
      assume "materializedFor z e v f0 st'" and "st' k = Some cd"
        and "updateCellAndDependents ev m k (formula cd) st' = Inr r'"
      then show "materializedFor z e v f0 r'"
        using update_materializedFor[OF ez pf calc] by blast
    qed
  qed
qed

section \<open>The sample states of the component\<close>

lemma componentA_commit:
  "handleBlur_component sampleEvaluate (Suc (Suc 0)) ''A1''
     (handleInputChange_component ''A1'' ''5'' initialComponent) = Inr componentA"
  by (simp add: handleBlur_component_def handleInputChange_component_def initialComponent_def initialApp_def componentA_def
      handleInputChange_heap_def saveToHistory_def dependenciesOrNew_def newArray_def
      engine_defs fun_eq_iff)

lemma componentAB_commit:
  "handleBlur_component sampleEvaluate (Suc (Suc 0)) ''B1''
     (handleInputChange_component ''B1'' ''=A1+1'' componentA) = Inr componentAB"
  by (simp add: handleBlur_component_def handleInputChange_component_def componentA_def componentAB_def
      handleInputChange_heap_def saveToHistory_def dependenciesOrNew_def newArray_def
      materialize_heap_def pushDependent_heap_def readStore_def readCell_def sampleEvaluate_def
      engine_defs fun_eq_iff)

lemma componentA_store: "currentStore componentA = Some storeA"
  by (simp add: currentStore_def componentA_def readStore_def readCell_def storeA_def fun_eq_iff)

lemma componentAB_store: "currentStore componentAB = Some storeAB"
  by (simp add: currentStore_def componentAB_def readStore_def readCell_def storeAB_def fun_eq_iff)

lemma componentAB_undo: "currentStore (handleUndo_component componentAB) = Some undoneStore"
  by (simp add: currentStore_def handleUndo_component_def handleUndo_def nthOrUndefined_def
      componentAB_def readStore_def readCell_def undoneStore_def fun_eq_iff)

lemma undone_cells:
  "cells (fst (handleUndo_component componentAB)) = cells (fst componentA)"
  by (simp add: handleUndo_component_def handleUndo_def nthOrUndefined_def componentAB_def componentA_def)

lemma undone_rejected:
  "map_sum id currentStore
     (handleBlur_component sampleEvaluate (Suc (Suc (Suc 0))) ''A1''
        (handleInputChange_component ''A1'' ''=B1'' (handleUndo_component componentAB)))
   = Inr (Some undoneRejectedStore)"
  by (simp add: handleBlur_component_def handleInputChange_component_def handleUndo_component_def
      handleUndo_def nthOrUndefined_def componentAB_def currentStore_def
      handleInputChange_heap_def saveToHistory_def dependenciesOrNew_def newArray_def
      materialize_heap_def pushDependent_heap_def readStore_def readCell_def sampleEvaluate_def
      undoneRejectedStore_def engine_defs fun_eq_iff)

section \<open>The two models agree on one call\<close>

text \<open>
  On a store in which no two cells share an array, one call of
  \<^verbatim>\<open>updateCellAndDependents\<close> with the arrays in the heap returns what the first model
  returns on the store as it reads: the same error, or a store that reads as the store of
  the first model.
\<close>

lemma heapGrows_refl: "heapGrows h h"
  by (simp add: heapGrows_def)

lemma heapGrows_trans: "heapGrows h h' \<Longrightarrow> heapGrows h' h'' \<Longrightarrow> heapGrows h h''"
  unfolding heapGrows_def by (meson dual_order.trans less_le_trans)

lemma keepsAddresses_refl: "keepsAddresses c c"
  by (simp add: keepsAddresses_def)

lemma keepsAddresses_trans: "keepsAddresses c c' \<Longrightarrow> keepsAddresses c' c'' \<Longrightarrow> keepsAddresses c c''"
  by (simp add: keepsAddresses_def)

lemma advances_refl: "wellAllocated s \<Longrightarrow> advances s s"
  by (simp add: advances_def heapGrows_refl keepsAddresses_refl)

lemma advances_trans: "advances s s' \<Longrightarrow> advances s' s'' \<Longrightarrow> advances s s''"
  unfolding advances_def using heapGrows_trans keepsAddresses_trans by blast

lemma view_apply:
  "view (c, h) k = map_option (readCell h) (c k)"
  by (simp add: view_def readStore_def)

lemma dependenciesOrEmpty_view:
  "dependenciesOrEmpty (view (c, h)) k
     = (case addressOf c k of None \<Rightarrow> [] | Some a \<Rightarrow> arrays h a)"
  by (simp add: dependenciesOrEmpty_def view_apply readCell_def addressOf_def
      split: option.splits)

lemma addressOf_upd:
  "addressOf (c(s \<mapsto> obj)) k = (if k = s then objDependencies obj else addressOf c k)"
  by (simp add: addressOf_def)

lemma dependenciesOrNew_sim:
  assumes wa: "wellAllocated (c, h)" and d: "dependenciesOrNew c s h = (a, h1)"
  shows "view (c(s \<mapsto> \<lparr>objValue = v, objFormula = f, objDependencies = Some a\<rparr>), h1)
           = (view (c, h))(s \<mapsto> \<lparr>val = v, formula = f,
                dependencies = Some (dependenciesOrEmpty (view (c, h)) s)\<rparr>)"
    and "advances (c, h) (c(s \<mapsto> \<lparr>objValue = v, objFormula = f, objDependencies = Some a\<rparr>), h1)"
    and "arrays h1 a = dependenciesOrEmpty (view (c, h)) s"
proof -
  let ?c1 = "c(s \<mapsto> \<lparr>objValue = v, objFormula = f, objDependencies = Some a\<rparr>)"
  from wa have lt: "\<And>k b. addressOf c k = Some b \<Longrightarrow> b < fresh h"
    and inj: "\<And>k k' b. addressOf c k = Some b \<Longrightarrow> addressOf c k' = Some b \<Longrightarrow> k = k'"
    unfolding wellAllocated_def by auto
  have "view (?c1, h1) = (view (c, h))(s \<mapsto> \<lparr>val = v, formula = f,
                dependencies = Some (dependenciesOrEmpty (view (c, h)) s)\<rparr>)
    \<and> advances (c, h) (?c1, h1)
    \<and> arrays h1 a = dependenciesOrEmpty (view (c, h)) s"
  proof (cases "addressOf c s")
    case None
    with d have a: "a = fresh h"
      and h1: "h1 = \<lparr>arrays = (arrays h)(fresh h := []), fresh = Suc (fresh h)\<rparr>"
      by (auto simp: dependenciesOrNew_def addressOf_def newArray_def split: option.splits)
    have other: "arrays h1 b = arrays h b" if "addressOf c k = Some b" for k b
      using lt[OF that] by (simp add: h1)
    have A3: "arrays h1 a = dependenciesOrEmpty (view (c, h)) s"
      by (simp add: dependenciesOrEmpty_view None a h1)
    have A1: "view (?c1, h1) = (view (c, h))(s \<mapsto> \<lparr>val = v, formula = f,
                dependencies = Some (dependenciesOrEmpty (view (c, h)) s)\<rparr>)"
    proof
      fix k
      show "view (?c1, h1) k = ((view (c, h))(s \<mapsto> \<lparr>val = v, formula = f,
                dependencies = Some (dependenciesOrEmpty (view (c, h)) s)\<rparr>)) k"
      proof (cases "k = s")
        case True
        then show ?thesis
          by (simp add: view_apply readCell_def dependenciesOrEmpty_view None a h1)
      next
        case False
        show ?thesis
        proof (cases "c k")
          case cn: None
          with False show ?thesis by (simp add: view_apply)
        next
          case (Some obj)
          have "map_option (arrays h1) (objDependencies obj) = map_option (arrays h) (objDependencies obj)"
          proof (cases "objDependencies obj")
            case dn: None
            then show ?thesis by simp
          next
            case (Some b)
            with \<open>c k = Some obj\<close> have "addressOf c k = Some b"
              by (simp add: addressOf_def)
            from other[OF this] Some show ?thesis by simp
          qed
          with False Some show ?thesis
            by (simp add: view_apply readCell_def)
        qed
      qed
    qed
    have A2: "advances (c, h) (?c1, h1)"
      unfolding advances_def
    proof (intro conjI)
      show "wellAllocated (?c1, h1)"
        unfolding wellAllocated_def
      proof (intro conjI allI impI)
        fix k b assume "addressOf (fst (?c1, h1)) k = Some b"
        then show "b < fresh (snd (?c1, h1))"
          using lt[of k b] by (auto simp: addressOf_upd a h1 split: if_splits)
      next
        fix k k' b
        assume kb: "addressOf (fst (?c1, h1)) k = Some b" and kb': "addressOf (fst (?c1, h1)) k' = Some b"
        show "k = k'"
        proof (cases "k = s")
          case True
          with kb have "b = fresh h" by (simp add: addressOf_upd a)
          with kb' lt[of k' b] have "k' = s"
            by (cases "k' = s") (simp_all add: addressOf_upd)
          with True show ?thesis by simp
        next
          case False
          with kb have c1: "addressOf c k = Some b" by (simp add: addressOf_upd)
          from lt[OF c1] have "b \<noteq> fresh h" by simp
          with kb' have "k' \<noteq> s" by (auto simp: addressOf_upd a)
          with kb' have "addressOf c k' = Some b" by (simp add: addressOf_upd)
          with c1 show ?thesis by (rule inj)
        qed
      qed
      show "heapGrows (snd (c, h)) (snd (?c1, h1))"
        by (simp add: heapGrows_def h1)
      show "keepsAddresses (fst (c, h)) (fst (?c1, h1))"
        using None by (auto simp: keepsAddresses_def addressOf_upd)
    qed
    from A1 A2 A3 show ?thesis by simp
  next
    case (Some b)
    with d have a: "a = b" and h1: "h1 = h"
      by (auto simp: dependenciesOrNew_def addressOf_def split: option.splits)
    have A3: "arrays h1 a = dependenciesOrEmpty (view (c, h)) s"
      by (simp add: dependenciesOrEmpty_view Some a h1)
    have A1: "view (?c1, h1) = (view (c, h))(s \<mapsto> \<lparr>val = v, formula = f,
                dependencies = Some (dependenciesOrEmpty (view (c, h)) s)\<rparr>)"
      by (rule ext) (simp add: view_apply readCell_def dependenciesOrEmpty_view Some a h1)
    have A2: "advances (c, h) (?c1, h1)"
      unfolding advances_def
    proof (intro conjI)
      show "wellAllocated (?c1, h1)"
        unfolding wellAllocated_def
      proof (intro conjI allI impI)
        fix k b' assume "addressOf (fst (?c1, h1)) k = Some b'"
        then show "b' < fresh (snd (?c1, h1))"
          using lt[of k b'] lt[OF Some] by (auto simp: addressOf_upd a h1 split: if_splits)
      next
        fix k k' b'
        assume "addressOf (fst (?c1, h1)) k = Some b'" "addressOf (fst (?c1, h1)) k' = Some b'"
        then have k: "addressOf c (if k = s then s else k) = Some b'"
          and k': "addressOf c (if k' = s then s else k') = Some b'"
          using Some by (simp_all add: addressOf_upd a split: if_splits)
        from inj[OF k k'] show "k = k'"
          by (simp split: if_splits)
      qed
      show "heapGrows (snd (c, h)) (snd (?c1, h1))"
        by (simp add: heapGrows_def h1)
      show "keepsAddresses (fst (c, h)) (fst (?c1, h1))"
        using Some by (auto simp: keepsAddresses_def addressOf_upd a)
    qed
    from A1 A2 A3 show ?thesis by simp
  qed
  then show "view (?c1, h1) = (view (c, h))(s \<mapsto> \<lparr>val = v, formula = f,
                dependencies = Some (dependenciesOrEmpty (view (c, h)) s)\<rparr>)"
    and "advances (c, h) (?c1, h1)"
    and "arrays h1 a = dependenciesOrEmpty (view (c, h)) s"
    by simp_all
qed

lemma view_None: "view (c, h) k = None \<longleftrightarrow> c k = None"
  by (simp add: view_apply)

lemma materialize_sim:
  assumes wa: "wellAllocated s"
  shows "view (materialize_heap p s) = materialize p (view s)"
    and "advances s (materialize_heap p s)"
proof -
  obtain c h where s: "s = (c, h)"
    by (cases s)
  have "view (materialize_heap p s) = materialize p (view s) \<and> advances s (materialize_heap p s)"
  proof (cases "c p")
    case None
    have d: "dependenciesOrNew c p h = (fresh h, snd (newArray h))"
      using None by (simp add: dependenciesOrNew_def newArray_def)
    have m: "materialize_heap p (c, h)
        = (c(p \<mapsto> \<lparr>objValue = Str [], objFormula = [], objDependencies = Some (fresh h)\<rparr>),
           snd (newArray h))"
      using None by (simp add: materialize_heap_def newArray_def)
    have e: "dependenciesOrEmpty (view (c, h)) p = []"
      using None by (simp add: dependenciesOrEmpty_view addressOf_def)
    have vn: "view (c, h) p = None"
      using None by (simp add: view_apply)
    from dependenciesOrNew_sim(1,2)[OF wa[unfolded s] d, of "Str []" "[]"] show ?thesis
      by (simp add: m s materialize_def vn e emptyCell_def)
  next
    case (Some obj)
    then have "materialize_heap p s = s"
      by (simp add: materialize_heap_def s)
    moreover have "materialize p (view s) = view s"
      using Some by (simp add: materialize_def s view_apply)
    ultimately show ?thesis
      using wa by (simp add: advances_refl)
  qed
  then show "view (materialize_heap p s) = materialize p (view s)"
    and "advances s (materialize_heap p s)"
    by simp_all
qed

lemma push_sim:
  assumes wa: "wellAllocated s"
  shows "map_sum id view (pushDependent_heap x p s) = pushDependent x p (view s)
         \<and> (\<forall>s'. pushDependent_heap x p s = Inr s' \<longrightarrow> advances s s')"
proof -
  obtain c h where s: "s = (c, h)"
    by (cases s)
  from wa have inj: "\<And>k k' b. addressOf c k = Some b \<Longrightarrow> addressOf c k' = Some b \<Longrightarrow> k = k'"
    and lt: "\<And>k b. addressOf c k = Some b \<Longrightarrow> b < fresh h"
    unfolding wellAllocated_def s by auto
  show ?thesis
  proof (cases "addressOf c p")
    case None
    then have "pushDependent_heap x p s = Inl TypeError"
      by (auto simp: pushDependent_heap_def s addressOf_def split: option.splits)
    moreover have "pushDependent x p (view s) = Inl TypeError"
      using None
      by (auto simp: pushDependent_def s view_apply readCell_def addressOf_def split: option.splits)
    ultimately show ?thesis by simp
  next
    case (Some a)
    then obtain obj where obj: "c p = Some obj" "objDependencies obj = Some a"
      by (auto simp: addressOf_def split: option.splits)
    show ?thesis
    proof (cases "x \<in> set (arrays h a)")
      case True
      then have "pushDependent_heap x p s = Inr s"
        by (simp add: pushDependent_heap_def s obj)
      moreover have "pushDependent x p (view s) = Inr (view s)"
        using True by (simp add: pushDependent_def s view_apply readCell_def obj)
      ultimately show ?thesis
        using wa by (simp add: advances_refl)
    next
      case False
      let ?h = "h\<lparr>arrays := (arrays h)(a := arrays h a @ [x])\<rparr>"
      have ph: "pushDependent_heap x p s = Inr (c, ?h)"
        using False by (simp add: pushDependent_heap_def s obj)
      have "view (c, ?h)
          = (view (c, h))(p \<mapsto> (readCell h obj)\<lparr>dependencies := Some (arrays h a @ [x])\<rparr>)"
      proof
        fix k
        show "view (c, ?h) k
          = ((view (c, h))(p \<mapsto> (readCell h obj)\<lparr>dependencies := Some (arrays h a @ [x])\<rparr>)) k"
        proof (cases "k = p")
          case True
          then show ?thesis
            by (simp add: view_apply readCell_def obj)
        next
          case kp: False
          show ?thesis
          proof (cases "c k")
            case None
            with kp show ?thesis by (simp add: view_apply)
          next
            case so: (Some obj')
            have "objDependencies obj' \<noteq> Some a"
            proof
              assume "objDependencies obj' = Some a"
              with so have "addressOf c k = Some a"
                by (simp add: addressOf_def)
              from inj[OF this Some] kp show False by simp
            qed
            then have "map_option (arrays ?h) (objDependencies obj')
                = map_option (arrays h) (objDependencies obj')"
              by (cases "objDependencies obj'") simp_all
            with kp so show ?thesis
              by (simp add: view_apply readCell_def)
          qed
        qed
      qed
      then have pv: "pushDependent x p (view s) = Inr (view (c, ?h))"
        using False by (simp add: pushDependent_def s view_apply readCell_def obj)
      have "wellAllocated (c, ?h)"
        using wa by (simp add: wellAllocated_def s)
      moreover have "heapGrows h ?h"
        by (auto simp: heapGrows_def)
      ultimately have "advances s (c, ?h)"
        by (simp add: advances_def s keepsAddresses_refl)
      with ph pv show ?thesis
        by simp
    qed
  qed
qed

lemma addParents_sim:
  "wellAllocated s \<Longrightarrow>
     map_sum id view (addParents_heap x ps s) = addParents x ps (view s)
     \<and> (\<forall>s'. addParents_heap x ps s = Inr s' \<longrightarrow> advances s s')"
proof (induction ps arbitrary: s)
  case Nil
  then show ?case
    by (simp add: advances_refl)
next
  case (Cons p ps)
  let ?m = "materialize_heap p s"
  note M = materialize_sim[OF Cons.prems, of p]
  from M(2) have wm: "wellAllocated ?m"
    by (simp add: advances_def)
  note P = push_sim[OF wm, of x p]
  show ?case
  proof (cases "pushDependent_heap x p ?m")
    case (Inl e)
    with P have "pushDependent x p (materialize p (view s)) = Inl e"
      by (simp add: M(1))
    with Inl show ?thesis
      by simp
  next
    case (Inr s1)
    with P have f: "pushDependent x p (materialize p (view s)) = Inr (view s1)"
      and a1: "advances ?m s1"
      by (simp_all add: M(1))
    from a1 have w1: "wellAllocated s1"
      by (simp add: advances_def)
    from M(2) a1 have a: "advances s s1"
      by (rule advances_trans)
    from Cons.IH[OF w1] a show ?thesis
      using Inr f by (auto intro: advances_trans)
  qed
qed

lemma dom_view: "dom (view (c, h)) = dom c"
  by (auto simp: view_apply dom_def)

lemma map_add_absorb: "dom c \<subseteq> dom r \<Longrightarrow> c ++ r = r"
  by (auto simp: fun_eq_iff map_add_def split: option.splits)

lemma refreshChildren_sim:
  assumes step: "\<And>k f st. wellAllocated st \<Longrightarrow>
      map_sum id view (upd_heap k f st) = upd k f (view st)
      \<and> (\<forall>s'. upd_heap k f st = Inr s' \<longrightarrow> advances st s')"
    and grow: "\<And>k f c r. upd k f c = Inr r \<Longrightarrow> dom c \<subseteq> dom r"
  shows "wellAllocated s \<Longrightarrow>
     map_sum id view (refreshChildren_heap upd_heap ks s) = refreshChildren upd ks (view s)
     \<and> (\<forall>s'. refreshChildren_heap upd_heap ks s = Inr s' \<longrightarrow> advances s s')"
proof (induction ks arbitrary: s)
  case Nil
  then show ?case
    by (simp add: advances_refl)
next
  case (Cons k ks)
  obtain c h where s: "s = (c, h)"
    by (cases s)
  show ?case
  proof (cases "c k")
    case None
    then have "view s k = None"
      by (simp add: s view_apply)
    with None Cons.IH[OF Cons.prems] show ?thesis
      by (simp add: s)
  next
    case (Some childData)
    then have v: "view s k = Some (readCell h childData)"
      by (simp add: s view_apply)
    have f: "formula (readCell h childData) = objFormula childData"
      by (simp add: readCell_def)
    note S = step[OF Cons.prems, of k "objFormula childData"]
    show ?thesis
    proof (cases "upd_heap k (objFormula childData) s")
      case (Inl e)
      with S have "upd k (objFormula childData) (view s) = Inl e"
        by simp
      with Inl Some v f show ?thesis
        by (simp add: s)
    next
      case (Inr r)
      with S have u: "upd k (objFormula childData) (view s) = Inr (view r)"
        and a: "advances s r"
        by simp_all
      from grow[OF u] have d: "dom (view s) \<subseteq> dom (view r)" .
      obtain c' h' where r: "r = (c', h')"
        by (cases r)
      from d have "dom c \<subseteq> dom c'"
        by (simp add: s r dom_view)
      then have m: "c ++ c' = c'"
        by (rule map_add_absorb)
      from d have mv: "view s ++ view r = view r"
        by (rule map_add_absorb)
      from a have wr: "wellAllocated r"
        by (simp add: advances_def)
      have hs: "refreshChildren_heap upd_heap (k # ks) s = refreshChildren_heap upd_heap ks r"
        using Some Inr by (simp add: s r m)
      have fs: "refreshChildren upd (k # ks) (view s) = refreshChildren upd ks (view r)"
        using v f u by (simp add: mv)
      from Cons.IH[OF wr] a show ?thesis
        unfolding hs fs by (auto intro: advances_trans)
    qed
  qed
qed

lemma update_sim:
  "wellAllocated s \<Longrightarrow>
     map_sum id view (updateCellAndDependents_heap ev n k f s)
       = updateCellAndDependents ev n k f (view s)
     \<and> (\<forall>s'. updateCellAndDependents_heap ev n k f s = Inr s' \<longrightarrow> advances s s')"
proof (induction n arbitrary: k f s)
  case 0
  then show ?case by simp
next
  case (Suc n)
  obtain c h where s: "s = (c, h)"
    by (cases s)
  have rs: "readStore h c = view s"
    by (simp add: view_def s)
  let ?test = "firstTrue (\<lambda>parent. hasCircularDependency n k parent (view s)) (parentsOf f)"
  obtain a h1 where d: "dependenciesOrNew c k h = (a, h1)"
    by (cases "dependenciesOrNew c k h")
  note D = dependenciesOrNew_sim[OF Suc.prems[unfolded s] d]
  show ?case
  proof (cases ?test)
    case (Inl e)
    then show ?thesis
      by (simp add: s rs Let_def)
  next
    case (Inr circular)
    show ?thesis
    proof (cases circular)
      case True
      with Inr D(1,2)[of "Str ''#CIRCULAR''" f] show ?thesis
        by (simp add: s rs d Let_def)
    next
      case False
      let ?v = "calculateFormula ev f (view s)"
      let ?u0 = "(c(k \<mapsto> \<lparr>objValue = ?v, objFormula = f, objDependencies = Some a\<rparr>), h1)"
      let ?f0 = "(view s)(k \<mapsto> \<lparr>val = ?v, formula = f,
                      dependencies = Some (dependenciesOrEmpty (view s) k)\<rparr>)"
      have v0: "view ?u0 = ?f0" and a0: "advances s ?u0"
        using D(1,2)[of ?v f] by (simp_all add: s)
      from a0 have w0: "wellAllocated ?u0"
        by (simp add: advances_def)
      note A = addParents_sim[OF w0, of k "parentsOf f"]
      have hu: "updateCellAndDependents_heap ev (Suc n) k f s
          = (case addParents_heap k (parentsOf f) ?u0 of
               Inl e \<Rightarrow> Inl e
             | Inr s' \<Rightarrow>
                 refreshChildren_heap (\<lambda>childId g st. updateCellAndDependents_heap ev n childId g st)
                   (arrays (snd s') a) s')"
        using Inr False by (simp add: s rs d Let_def cong: sum.case_cong)
      have fu: "updateCellAndDependents ev (Suc n) k f (view s)
          = (case addParents k (parentsOf f) ?f0 of
               Inl e \<Rightarrow> Inl e
             | Inr u \<Rightarrow>
                 refreshChildren (\<lambda>childId g st. updateCellAndDependents ev n childId g st)
                   (dependenciesOrEmpty u k) u)"
        using Inr False by (simp add: Let_def)
      show ?thesis
      proof (cases "addParents_heap k (parentsOf f) ?u0")
        case il: (Inl e)
        with A have "addParents k (parentsOf f) ?f0 = Inl e"
          by (simp add: v0)
        with il show ?thesis
          unfolding hu fu by simp
      next
        case ir: (Inr s1)
        with A have fa: "addParents k (parentsOf f) ?f0 = Inr (view s1)"
          and a1: "advances ?u0 s1"
          by (simp_all add: v0)
        from a1 have w1: "wellAllocated s1"
          by (simp add: advances_def)
        from a0 a1 have a01: "advances s s1"
          by (rule advances_trans)
        have "addressOf (fst ?u0) k = Some a"
          by (simp add: addressOf_upd)
        with a1 have "addressOf (fst s1) k = Some a"
          by (simp add: advances_def keepsAddresses_def)
        then have ch: "dependenciesOrEmpty (view s1) k = arrays (snd s1) a"
          using dependenciesOrEmpty_view[of "fst s1" "snd s1" k] by simp
        have L: "map_sum id view
              (refreshChildren_heap (\<lambda>childId g st. updateCellAndDependents_heap ev n childId g st)
                 (arrays (snd s1) a) s1)
            = refreshChildren (\<lambda>childId g st. updateCellAndDependents ev n childId g st)
                 (arrays (snd s1) a) (view s1)
          \<and> (\<forall>s'. refreshChildren_heap
                      (\<lambda>childId g st. updateCellAndDependents_heap ev n childId g st)
                      (arrays (snd s1) a) s1 = Inr s' \<longrightarrow> advances s1 s')"
        proof (rule refreshChildren_sim[OF _ _ w1])
          fix k' g st
          assume "wellAllocated st"
          then show "map_sum id view (updateCellAndDependents_heap ev n k' g st)
                = updateCellAndDependents ev n k' g (view st)
              \<and> (\<forall>s'. updateCellAndDependents_heap ev n k' g st = Inr s' \<longrightarrow> advances st s')"
            by (rule Suc.IH)
        next
          fix k' g c' r'
          assume "updateCellAndDependents ev n k' g c' = Inr r'"
          then show "dom c' \<subseteq> dom r'"
            using update_dom by blast
        qed
        from L have L1: "map_sum id view
              (refreshChildren_heap (\<lambda>childId g st. updateCellAndDependents_heap ev n childId g st)
                 (arrays (snd s1) a) s1)
            = refreshChildren (\<lambda>childId g st. updateCellAndDependents ev n childId g st)
                 (arrays (snd s1) a) (view s1)"
          by (rule conjunct1)
        have g1: "map_sum id view (updateCellAndDependents_heap ev (Suc n) k f s)
            = updateCellAndDependents ev (Suc n) k f (view s)"
          unfolding hu fu ir fa by (simp only: sum.case ch L1)
        have g2: "\<forall>s'. updateCellAndDependents_heap ev (Suc n) k f s = Inr s' \<longrightarrow> advances s s'"
        proof (intro allI impI)
          fix s'
          assume "updateCellAndDependents_heap ev (Suc n) k f s = Inr s'"
          then have "refreshChildren_heap
                      (\<lambda>childId g st. updateCellAndDependents_heap ev n childId g st)
                      (arrays (snd s1) a) s1 = Inr s'"
            unfolding hu ir by (simp only: sum.case)
          with L have "advances s1 s'"
            by blast
          with a01 show "advances s s'"
            by (rule advances_trans)
        qed
        from g1 g2 show ?thesis
          by (rule conjI)
      qed
    qed
  qed
qed

section \<open>Stores read after later pushes\<close>

lemma grown_graph: "grown c c' \<Longrightarrow> dependentsGraph c \<subseteq> dependentsGraph c'"
  by (auto simp: grown_def dependentsGraph_def)

lemma grown_rejectable: "grown c c' \<Longrightarrow> rejectable c x \<Longrightarrow> rejectable c' x"
  using grown_graph[of c c'] by (auto simp: grown_def intro: rejectable_mono)

lemma settled_grown:
  assumes s: "settled c" and g: "grown c c'"
    and wf: "wellFormed c'" and ac: "acyclic (dependentsGraph c')"
  shows "settled c'"
proof -
  from g have cont: "\<And>k. content c' k = content c k"
    and deps: "\<And>k. set (dependenciesOrEmpty c k) \<subseteq> set (dependenciesOrEmpty c' k)"
    by (simp_all add: grown_def)
  have ref: "references c' x y = references c x y" for x y
    by (rule content_references[OF cont])
  have vo: "valueOf c' x = valueOf c x" for x
    by (rule content_valueOf[OF cont])
  have ec: "edgesCompleteExcept {} c'"
    using s deps unfolding settled_def edgesCompleteExcept_def ref vo by blast
  have er: "edgesRecordedExcept {} c'"
    unfolding edgesRecordedExcept_def
  proof (intro allI impI)
    fix x y assume "x \<notin> {}" and "references c' x y"
    then have "references c x y"
      by (simp add: ref)
    with s have "x \<in> set (dependenciesOrEmpty c y) \<or> rejectable c x"
      by (simp add: settled_def edgesRecordedExcept_def)
    then show "x \<in> set (dependenciesOrEmpty c' y) \<or> rejectable c' x"
      using deps[of y] grown_rejectable[OF g, of x] by blast
  qed
  have ps: "poisonSettledExcept {} c'"
    unfolding poisonSettledExcept_def poisonSettled_def
  proof (intro allI impI)
    fix x assume "x \<notin> {}"
      and "\<exists>y. references c' x y \<and> valueOf c' y = Some (Str ''#ERROR'')"
    then have "\<exists>y. references c x y \<and> valueOf c y = Some (Str ''#ERROR'')"
      by (simp add: ref vo)
    with s have "valueOf c x = Some (Str ''#ERROR'') \<or> rejectable c x"
      by (simp add: settled_def poisonSettledExcept_def poisonSettled_def)
    then show "valueOf c' x = Some (Str ''#ERROR'') \<or> rejectable c' x"
      using grown_rejectable[OF g, of x] by (auto simp: vo)
  qed
  have dm: "dom c' = dom c"
  proof -
    have "c' k = None \<longleftrightarrow> c k = None" for k
      using cont[of k] by (cases "c k"; cases "c' k") (simp_all add: content_def)
    then show ?thesis
      by (auto simp: dom_def)
  qed
  have ar: "absentRejectedExcept {} c'"
    unfolding absentRejectedExcept_def
  proof (intro allI impI)
    fix x y assume "x \<notin> {}" and "references c' x y" and "y \<notin> dom c'"
    then have "references c x y" and "y \<notin> dom c"
      by (simp_all add: ref dm)
    with s have "rejectable c x"
      by (simp add: settled_def absentRejectedExcept_def)
    with g show "rejectable c' x"
      by (rule grown_rejectable)
  qed
  from wf ac ec er ps ar show ?thesis
    by (simp add: settled_def)
qed

lemma settled_update:
  assumes s: "settled c" and u: "updateCellAndDependents ev n k f c = Inr r"
  shows "settled r"
proof -
  from s have "wellFormedExcept k c"
    by (simp add: settled_def wellFormed_Except)
  with u have wf: "wellFormed r"
    by (rule update_wellFormed)
  from s update_graph[OF u] have ac: "acyclic (dependentsGraph r)"
    by (simp add: settled_def)
  from s have "edgesCompleteExcept {k} c"
    by (simp add: settled_def edgesCompleteExcept_def)
  with u have ec: "edgesCompleteExcept {} r"
    by (rule update_edgesComplete)
  from s have e1: "edgesRecordedExcept {k} c"
    by (simp add: settled_def edgesRecordedExcept_def)
  with u have er: "edgesRecordedExcept {} r"
    by (rule update_edgesRecorded)
  from s have "poisonSettledExcept (insert k {}) c"
    by (simp add: settled_def poisonSettledExcept_def)
  with u e1 have ps: "poisonSettledExcept {} r"
    by (rule update_poisonSettled)
  from s have "absentRejectedExcept {k} c"
    by (simp add: settled_def absentRejectedExcept_def)
  with u have ar: "absentRejectedExcept {} r"
    by (rule update_absentRejected)
  from wf ac ec er ps ar show ?thesis
    by (simp add: settled_def)
qed

lemma settled_empty: "settled Map.empty"
  by (simp add: settled_def wellFormed_def dependentsGraph_def dependenciesOrEmpty_def acyclic_def
      edgesCompleteExcept_def edgesRecordedExcept_def poisonSettledExcept_def poisonSettled_def
      absentRejectedExcept_def references_def)

lemma committed_settled: "c \<in> committed ev \<Longrightarrow> settled c"
proof (induction rule: committed.induct)
  case initial
  show ?case by (rule settled_empty)
next
  case (edit currentCells n cellId newText finalState)
  from edit.hyps(2) have "updateCellAndDependents ev n cellId newText currentCells = Inr finalState"
    by (simp add: handleBlur_after_input)
  with edit.IH show ?case
    by (rule settled_update)
next
  case (blur currentCells n cellId finalState)
  from blur.IH blur.hyps(2) show ?case
    unfolding handleBlur_def by (rule settled_update)
qed

section \<open>The component with undo and redo\<close>

text \<open>
  Every state of the component is consistent, so the store that is current after any
  sequence of edits, undo and redo steps is settled: its graph is acyclic, the references
  of accepted formulas are recorded and \<^verbatim>\<open>#ERROR\<close> has been propagated. The stores of
  \<open>committed\<close> are among the current stores of the component.
\<close>

lemma addressOf_handleInputChange:
  "addressOf (handleInputChange_heap k t c) = addressOf c"
  by (rule ext) (simp add: addressOf_def handleInputChange_heap_def split: option.splits)

lemma view_handleInputChange:
  "view (handleInputChange_heap k t c, h) = handleInputChange k t (view (c, h))"
  by (rule ext)
     (simp add: view_apply handleInputChange_heap_def handleInputChange_def readCell_def
        split: option.splits)

lemma wellAllocated_addressOf:
  "addressOf c' = addressOf c \<Longrightarrow> wellAllocated (c', h) = wellAllocated (c, h)"
  by (simp add: wellAllocated_def)

lemma wellAllocated_grows:
  "wellAllocated (S, h) \<Longrightarrow> heapGrows h h' \<Longrightarrow> wellAllocated (S, h')"
  unfolding wellAllocated_def heapGrows_def by (auto intro: less_le_trans)

lemma content_view: "content (view (S, h)) k = map_option (\<lambda>obj. (objValue obj, objFormula obj)) (S k)"
  by (cases "S k") (simp_all add: content_def view_apply readCell_def)

lemma grown_view:
  assumes "wellAllocated (S, h)" and "heapGrows h h'"
  shows "grown (view (S, h)) (view (S, h'))"
  unfolding grown_def
proof (intro conjI allI)
  fix k
  show "content (view (S, h')) k = content (view (S, h)) k"
    by (simp add: content_view)
  show "set (dependenciesOrEmpty (view (S, h)) k) \<subseteq> set (dependenciesOrEmpty (view (S, h')) k)"
  proof (cases "addressOf S k")
    case None
    then show ?thesis by (simp add: dependenciesOrEmpty_view)
  next
    case (Some a)
    with assms(1) have "a < fresh h"
      by (auto simp: wellAllocated_def)
    with assms(2) show ?thesis
      by (simp add: dependenciesOrEmpty_view Some heapGrows_def)
  qed
qed

lemma wellFormed_view:
  "wellFormed (view (S, h)) \<longleftrightarrow> (\<forall>k obj. S k = Some obj \<longrightarrow> objDependencies obj \<noteq> None)"
proof
  assume w: "wellFormed (view (S, h))"
  show "\<forall>k obj. S k = Some obj \<longrightarrow> objDependencies obj \<noteq> None"
  proof (intro allI impI)
    fix k obj assume "S k = Some obj"
    then have "view (S, h) k = Some (readCell h obj)"
      by (simp add: view_apply)
    with w have "dependencies (readCell h obj) \<noteq> None"
      unfolding wellFormed_def by blast
    then show "objDependencies obj \<noteq> None"
      by (simp add: readCell_def)
  qed
next
  assume "\<forall>k obj. S k = Some obj \<longrightarrow> objDependencies obj \<noteq> None"
  then show "wellFormed (view (S, h))"
    by (auto simp: wellFormed_def view_apply readCell_def)
qed

lemma graph_keepsAddresses:
  assumes "keepsAddresses S S'"
  shows "dependentsGraph (view (S, h)) \<subseteq> dependentsGraph (view (S', h))"
proof
  fix e assume "e \<in> dependentsGraph (view (S, h))"
  then obtain x y where e: "e = (x, y)" and y: "y \<in> set (dependenciesOrEmpty (view (S, h)) x)"
    by (auto simp: dependentsGraph_def)
  from y obtain a where a: "addressOf S x = Some a" "y \<in> set (arrays h a)"
    by (cases "addressOf S x") (simp_all add: dependenciesOrEmpty_view)
  from assms a(1) have "addressOf S' x = Some a"
    by (simp add: keepsAddresses_def)
  with a(2) show "e \<in> dependentsGraph (view (S', h))"
    by (simp add: e dependentsGraph_def dependenciesOrEmpty_view)
qed

lemma settled_view_grows:
  assumes wa: "wellAllocated (S, h)" and s: "settled (view (S, h))"
    and hg: "heapGrows h h'" and ka: "keepsAddresses S S'"
    and top: "acyclic (dependentsGraph (view (S', h')))"
  shows "settled (view (S, h'))"
  using s
proof (rule settled_grown)
  show "grown (view (S, h)) (view (S, h'))"
    using wa hg by (rule grown_view)
  show "wellFormed (view (S, h'))"
    using s by (simp add: settled_def wellFormed_view)
  show "acyclic (dependentsGraph (view (S, h')))"
    using top graph_keepsAddresses[OF ka] by (rule acyclic_subset)
qed

lemma commit_consistent:
  assumes con: "consistent (st, h)"
    and fu: "updateCellAndDependents ev n k f (view (history st ! historyIndex st, h))
               = Inr (view (S', h'))"
    and adv: "advances (typed, h) (S', h')"
    and ad: "addressOf typed = addressOf (history st ! historyIndex st)"
  shows "consistent ((saveToHistory S' st)\<lparr>cells := Some S'\<rparr>, h')"
proof -
  let ?i = "historyIndex st"
  let ?old = "take (Suc ?i) (history st)"
  let ?Si = "history st ! ?i"
  from con have idx: "?i < length (history st)"
    and inv: "\<And>S. S \<in> set (history st) \<Longrightarrow> wellAllocated (S, h) \<and> settled (view (S, h))"
    and chain: "\<And>i j. i \<le> j \<Longrightarrow> j < length (history st)
            \<Longrightarrow> keepsAddresses (history st ! i) (history st ! j)"
    by (simp_all add: consistent_def)
  from adv have wa': "wellAllocated (S', h')" and hg: "heapGrows h h'"
    and kt: "keepsAddresses typed S'"
    by (simp_all add: advances_def)
  from kt ad have ki: "keepsAddresses ?Si S'"
    by (simp add: keepsAddresses_def)
  have "?Si \<in> set (history st)"
    using idx by simp
  then have "settled (view (?Si, h))"
    using inv by blast
  then have s': "settled (view (S', h'))"
    using fu by (rule settled_update)
  have len: "length ?old = Suc ?i"
    using idx by simp
  have hist: "history ((saveToHistory S' st)\<lparr>cells := Some S'\<rparr>) = ?old @ [S']"
    and hidx: "historyIndex ((saveToHistory S' st)\<lparr>cells := Some S'\<rparr>) = Suc ?i"
    using len by (simp_all add: saveToHistory_def Let_def)
  have oldnth: "?old ! j = history st ! j" if "j \<le> ?i" for j
    using that by simp
  have keep: "keepsAddresses (history st ! j) S'" if "j \<le> ?i" for j
    using chain[OF that idx] ki by (rule keepsAddresses_trans)
  have oldinv: "wellAllocated (S, h') \<and> settled (view (S, h'))" if "S \<in> set ?old" for S
  proof -
    from that obtain j where j: "j < length ?old" "?old ! j = S"
      by (auto simp: in_set_conv_nth)
    then have ji: "j \<le> ?i" and Sj: "S = history st ! j"
      using len by simp_all
    from that have "S \<in> set (history st)"
      by (rule in_set_takeD)
    then have w: "wellAllocated (S, h)" and s: "settled (view (S, h))"
      using inv by blast+
    from s' have top: "acyclic (dependentsGraph (view (S', h')))"
      by (simp add: settled_def)
    from keep[OF ji] have "keepsAddresses S S'"
      by (simp add: Sj)
    with w s hg have "settled (view (S, h'))"
      using top by (rule settled_view_grows)
    with wellAllocated_grows[OF w hg] show ?thesis
      by simp
  qed
  show ?thesis
    unfolding consistent_def fst_conv snd_conv hist hidx
  proof (intro conjI ballI allI impI)
    show "Suc ?i < length (?old @ [S'])"
      using len by simp
    show "cells ((saveToHistory S' st)\<lparr>cells := Some S'\<rparr>) = Some ((?old @ [S']) ! Suc ?i)"
      using len by (simp add: nth_append)
  next
    fix S assume "S \<in> set (?old @ [S'])"
    then consider "S \<in> set ?old" | "S = S'"
      by auto
    then show "wellAllocated (S, h')"
      using oldinv wa' by cases blast+
  next
    fix S assume "S \<in> set (?old @ [S'])"
    then consider "S \<in> set ?old" | "S = S'"
      by auto
    then show "settled (view (S, h'))"
      using oldinv s' by cases blast+
  next
    fix i j assume ij: "i \<le> j" and j: "j < length (?old @ [S'])"
    show "keepsAddresses ((?old @ [S']) ! i) ((?old @ [S']) ! j)"
    proof (cases "j \<le> ?i")
      case True
      with ij have "i \<le> ?i" by simp
      with True ij idx show ?thesis
        using len chain[of i j] by (simp add: nth_append)
    next
      case False
      with j len have jj: "j = Suc ?i" by simp
      show ?thesis
      proof (cases "i \<le> ?i")
        case True
        with keep[OF True] jj len show ?thesis
          by (simp add: nth_append)
      next
        case False
        with ij jj have "i = Suc ?i" by simp
        with jj show ?thesis
          by (simp add: keepsAddresses_refl)
      qed
    qed
  qed
qed

lemma handleBlur_component_Inr:
  assumes "handleBlur_component ev n k c = Inr c'"
  obtains S S' h' where "cells (fst c) = Some S"
    and "updateCellAndDependents_heap ev n k
           (case S k of None \<Rightarrow> [] | Some obj \<Rightarrow> objFormula obj) (S, snd c) = Inr (S', h')"
    and "c' = ((saveToHistory S' (fst c))\<lparr>cells := Some S'\<rparr>, h')"
  using assms unfolding handleBlur_component_def
  by (auto split: option.splits sum.splits)

lemma saveToHistory_cells:
  "(saveToHistory S' (st\<lparr>cells := x\<rparr>))\<lparr>cells := y\<rparr> = (saveToHistory S' st)\<lparr>cells := y\<rparr>"
  by (simp add: saveToHistory_def Let_def)

lemma view_empty: "view (Map.empty, h) = Map.empty"
  by (rule ext) (simp add: view_apply)

lemma consistent_initial: "consistent initialComponent"
  by (simp add: consistent_def initialComponent_def initialApp_def wellAllocated_def addressOf_def
      keepsAddresses_def view_empty settled_empty)

lemma consistent_undo: "consistent c \<Longrightarrow> consistent (handleUndo_component c)"
proof -
  assume c: "consistent c"
  show ?thesis
  proof (cases "0 < historyIndex (fst c)")
    case True
    then have "nat (int (historyIndex (fst c)) - 1) = historyIndex (fst c) - 1"
      by simp
    moreover from c have "historyIndex (fst c) - 1 < length (history (fst c))"
      by (simp add: consistent_def less_imp_diff_less)
    ultimately show ?thesis
      using c True
      by (simp add: consistent_def handleUndo_component_def handleUndo_def nthOrUndefined_def)
  next
    case False
    then show ?thesis
      using c by (simp add: handleUndo_component_def handleUndo_def)
  qed
qed

lemma consistent_redo: "consistent c \<Longrightarrow> consistent (handleRedo_component c)"
proof -
  assume c: "consistent c"
  show ?thesis
  proof (cases "int (historyIndex (fst c)) < int (length (history (fst c))) - 1")
    case True
    then have "Suc (historyIndex (fst c)) < length (history (fst c))"
      by simp
    moreover have "nat (int (historyIndex (fst c)) + 1) = Suc (historyIndex (fst c))"
      by simp
    ultimately show ?thesis
      using c True
      by (simp add: consistent_def handleRedo_component_def handleRedo_def nthOrUndefined_def)
  next
    case False
    then show ?thesis
      using c by (simp add: handleRedo_component_def handleRedo_def)
  qed
qed

lemma consistent_current:
  assumes "consistent c"
  obtains S where "cells (fst c) = Some S" and "S = history (fst c) ! historyIndex (fst c)"
    and "wellAllocated (S, snd c)" and "settled (view (S, snd c))"
proof -
  let ?S = "history (fst c) ! historyIndex (fst c)"
  from assms have "historyIndex (fst c) < length (history (fst c))" and "cells (fst c) = Some ?S"
    by (simp_all add: consistent_def)
  moreover from this(1) have "?S \<in> set (history (fst c))"
    by simp
  with assms have "wellAllocated (?S, snd c)" and "settled (view (?S, snd c))"
    by (simp_all add: consistent_def)
  ultimately show ?thesis
    using that by blast
qed

lemma consistent_blur:
  assumes con: "consistent c" and b: "handleBlur_component ev n k c = Inr c'"
  shows "consistent c'"
proof -
  obtain st h where c: "c = (st, h)"
    by (cases c)
  from b obtain S S' h' where S: "cells (fst c) = Some S"
    and u: "updateCellAndDependents_heap ev n k
           (case S k of None \<Rightarrow> [] | Some obj \<Rightarrow> objFormula obj) (S, snd c) = Inr (S', h')"
    and c': "c' = ((saveToHistory S' (fst c))\<lparr>cells := Some S'\<rparr>, h')"
    by (rule handleBlur_component_Inr)
  from con obtain Si where Si: "cells (fst c) = Some Si" "Si = history (fst c) ! historyIndex (fst c)"
    "wellAllocated (Si, snd c)"
    by (rule consistent_current)
  with S have eq: "S = history st ! historyIndex st" and wa: "wellAllocated (S, h)"
    by (simp_all add: c)
  note sim = update_sim[OF wa, of ev n k "case S k of None \<Rightarrow> [] | Some obj \<Rightarrow> objFormula obj"]
  from sim u have fu: "updateCellAndDependents ev n k
      (case S k of None \<Rightarrow> [] | Some obj \<Rightarrow> objFormula obj) (view (S, h)) = Inr (view (S', h'))"
    and adv: "advances (S, h) (S', h')"
    by (simp_all add: c)
  have "consistent ((saveToHistory S' st)\<lparr>cells := Some S'\<rparr>, h')"
    using con[unfolded c] fu[unfolded eq] adv
  proof (rule commit_consistent)
    show "addressOf S = addressOf (history st ! historyIndex st)"
      by (simp add: eq)
  qed
  then show ?thesis
    by (simp add: c' c)
qed

lemma consistent_edit:
  assumes con: "consistent c"
    and b: "handleBlur_component ev n k (handleInputChange_component k t c) = Inr c'"
  shows "consistent c'"
proof -
  obtain st h where c: "c = (st, h)"
    by (cases c)
  from con[unfolded c] obtain Si where "cells (fst (st, h)) = Some Si"
    "Si = history (fst (st, h)) ! historyIndex (fst (st, h))" "wellAllocated (Si, snd (st, h))"
    by (rule consistent_current)
  then have Si: "cells st = Some Si" "Si = history st ! historyIndex st" "wellAllocated (Si, h)"
    by simp_all
  let ?T = "handleInputChange_heap k t Si"
  have tc: "handleInputChange_component k t c = (st\<lparr>cells := Some ?T\<rparr>, h)"
    by (simp add: handleInputChange_component_def c Si(1))
  from b obtain S S' h' where S: "cells (fst (handleInputChange_component k t c)) = Some S"
    and u: "updateCellAndDependents_heap ev n k
           (case S k of None \<Rightarrow> [] | Some obj \<Rightarrow> objFormula obj)
           (S, snd (handleInputChange_component k t c)) = Inr (S', h')"
    and c': "c' = ((saveToHistory S' (fst (handleInputChange_component k t c)))\<lparr>cells := Some S'\<rparr>, h')"
    by (rule handleBlur_component_Inr)
  from S have ST: "S = ?T"
    by (simp add: tc)
  have ft: "(case ?T k of None \<Rightarrow> [] | Some obj \<Rightarrow> objFormula obj) = t"
    by (simp add: handleInputChange_heap_def split: option.splits)
  from u have u': "updateCellAndDependents_heap ev n k t (?T, h) = Inr (S', h')"
    by (simp add: ST ft tc)
  have wa: "wellAllocated (?T, h)"
    using Si(3) by (simp add: wellAllocated_addressOf[OF addressOf_handleInputChange])
  from update_sim[OF wa, of ev n k t] u'
  have fu: "updateCellAndDependents ev n k t (view (?T, h)) = Inr (view (S', h'))"
    and adv: "advances (?T, h) (S', h')"
    by simp_all
  have "updateCellAndDependents ev n k t (handleInputChange k t (view (Si, h)))
      = updateCellAndDependents ev n k t (view (Si, h))"
    using handleBlur_after_input[of ev n k t "view (Si, h)"]
    by (simp add: handleBlur_def handleInputChange_def split: option.splits)
  with fu have fu': "updateCellAndDependents ev n k t (view (history st ! historyIndex st, h))
      = Inr (view (S', h'))"
    by (simp add: view_handleInputChange Si(2))
  have "consistent ((saveToHistory S' st)\<lparr>cells := Some S'\<rparr>, h')"
    using con[unfolded c] fu' adv
  proof (rule commit_consistent)
    show "addressOf ?T = addressOf (history st ! historyIndex st)"
      by (simp add: addressOf_handleInputChange Si(2))
  qed
  then show ?thesis
    by (simp add: c' tc saveToHistory_cells)
qed

lemma reachable_consistent: "c \<in> reachable ev \<Longrightarrow> consistent c"
proof (induction rule: reachable.induct)
  case start
  show ?case by (rule consistent_initial)
next
  case (edit c n cellId newText c')
  from edit.IH edit.hyps(2) show ?case by (rule consistent_edit)
next
  case (blur c n cellId c')
  from blur.IH blur.hyps(2) show ?case by (rule consistent_blur)
next
  case (undo c)
  then show ?case by (simp add: consistent_undo)
next
  case (redo c)
  then show ?case by (simp add: consistent_redo)
qed

lemma reachable_settled:
  assumes "c \<in> reachable ev" and "currentStore c = Some allCells"
  shows "settled allCells"
proof -
  from assms(1) have "consistent c"
    by (rule reachable_consistent)
  then obtain S where "cells (fst c) = Some S" "settled (view (S, snd c))"
    by (rule consistent_current)
  with assms(2) show ?thesis
    by (simp add: currentStore_def view_def)
qed

lemma map_sum_Inr:
  "map_sum id g x = Inr r \<Longrightarrow> \<exists>s'. x = Inr s' \<and> g s' = r"
  by (cases x) simp_all

lemma handleBlur_formula:
  "updateCellAndDependents ev n k t (handleInputChange k t c)
     = handleBlur ev n k (handleInputChange k t c)"
  by (simp add: handleBlur_def handleInputChange_def split: option.splits)

lemma committed_reachable:
  "allCells \<in> committed ev \<Longrightarrow> \<exists>c\<in>reachable ev. currentStore c = Some allCells"
proof (induction rule: committed.induct)
  case initial
  have "currentStore initialComponent = Some Map.empty"
    by (simp add: currentStore_def initialComponent_def initialApp_def readStore_def)
  with reachable.start show ?case
    by blast
next
  case (edit currentCells n cellId newText finalState)
  then obtain c where c: "c \<in> reachable ev" "currentStore c = Some currentCells"
    by blast
  from c(1) have "consistent c"
    by (rule reachable_consistent)
  then obtain S where S: "cells (fst c) = Some S" "wellAllocated (S, snd c)"
    by (rule consistent_current)
  with c(2) have v: "view (S, snd c) = currentCells"
    by (simp add: currentStore_def view_def)
  let ?T = "handleInputChange_heap cellId newText S"
  have wa: "wellAllocated (?T, snd c)"
    using S(2) by (simp add: wellAllocated_addressOf[OF addressOf_handleInputChange])
  have "map_sum id view (updateCellAndDependents_heap ev n cellId newText (?T, snd c))
      = Inr finalState"
    using update_sim[OF wa, of ev n cellId newText] edit.hyps(2)
    by (simp add: view_handleInputChange v handleBlur_formula)
  then obtain s' where s': "updateCellAndDependents_heap ev n cellId newText (?T, snd c) = Inr s'"
    "view s' = finalState"
    by (auto dest: map_sum_Inr)
  have ft: "(case ?T cellId of None \<Rightarrow> [] | Some obj \<Rightarrow> objFormula obj) = newText"
    by (simp add: handleInputChange_heap_def split: option.splits)
  let ?c' = "((saveToHistory (fst s') (fst (handleInputChange_component cellId newText c)))
                \<lparr>cells := Some (fst s')\<rparr>, snd s')"
  have "handleBlur_component ev n cellId (handleInputChange_component cellId newText c) = Inr ?c'"
    using s'(1) by (simp add: handleBlur_component_def handleInputChange_component_def S(1) ft)
  with c(1) have "?c' \<in> reachable ev"
    by (rule reachable.edit)
  moreover have "currentStore ?c' = Some finalState"
    using s'(2) by (simp add: currentStore_def view_def)
  ultimately show ?case
    by blast
next
  case (blur currentCells n cellId finalState)
  then obtain c where c: "c \<in> reachable ev" "currentStore c = Some currentCells"
    by blast
  from c(1) have "consistent c"
    by (rule reachable_consistent)
  then obtain S where S: "cells (fst c) = Some S" "wellAllocated (S, snd c)"
    by (rule consistent_current)
  with c(2) have v: "view (S, snd c) = currentCells"
    by (simp add: currentStore_def view_def)
  let ?f = "case S cellId of None \<Rightarrow> [] | Some obj \<Rightarrow> objFormula obj"
  have f: "(case currentCells cellId of None \<Rightarrow> [] | Some x \<Rightarrow> formula x) = ?f"
    by (simp add: v[symmetric] view_apply readCell_def split: option.splits)
  have "map_sum id view (updateCellAndDependents_heap ev n cellId ?f (S, snd c)) = Inr finalState"
    using update_sim[OF S(2), of ev n cellId ?f] blur.hyps(2)
    by (simp add: v handleBlur_def f)
  then obtain s' where s': "updateCellAndDependents_heap ev n cellId ?f (S, snd c) = Inr s'"
    "view s' = finalState"
    by (auto dest: map_sum_Inr)
  let ?c' = "((saveToHistory (fst s') (fst c))\<lparr>cells := Some (fst s')\<rparr>, snd s')"
  have "handleBlur_component ev n cellId c = Inr ?c'"
    using s'(1) by (simp add: handleBlur_component_def S(1))
  with c(1) have "?c' \<in> reachable ev"
    by (rule reachable.blur)
  moreover have "currentStore ?c' = Some finalState"
    using s'(2) by (simp add: currentStore_def view_def)
  ultimately show ?case
    by blast
qed

section \<open>Undo after a commit\<close>

text \<open>
  After a commit, undo makes the store object current that was current before the edit,
  with the values and formulas it had; its lists of dependents are the ones of the heap
  after the commit, which may be longer. Redo then gives the state after the commit.
\<close>

lemma commit_shape:
  assumes con: "consistent c"
    and b: "handleBlur_component ev n k c0 = Inr c'"
    and c0: "c0 = c \<or> c0 = handleInputChange_component k t c"
  obtains S' h' where "c' = ((saveToHistory S' (fst c))\<lparr>cells := Some S'\<rparr>, h')"
    and "heapGrows (snd c) h'"
proof -
  from con obtain Si where Si: "cells (fst c) = Some Si" "wellAllocated (Si, snd c)"
    by (rule consistent_current)
  from b obtain S S' h' where S: "cells (fst c0) = Some S"
    and u: "updateCellAndDependents_heap ev n k
           (case S k of None \<Rightarrow> [] | Some obj \<Rightarrow> objFormula obj) (S, snd c0) = Inr (S', h')"
    and c': "c' = ((saveToHistory S' (fst c0))\<lparr>cells := Some S'\<rparr>, h')"
    by (rule handleBlur_component_Inr)
  have h0: "snd c0 = snd c"
    using c0 by (rule disjE) (simp_all add: handleInputChange_component_def)
  have st0: "(saveToHistory S' (fst c0))\<lparr>cells := Some S'\<rparr>
                = (saveToHistory S' (fst c))\<lparr>cells := Some S'\<rparr>"
    using c0 by (rule disjE) (simp_all add: handleInputChange_component_def saveToHistory_cells)
  have "addressOf S = addressOf Si"
    using c0
  proof
    assume "c0 = c"
    with S Si(1) show ?thesis by simp
  next
    assume "c0 = handleInputChange_component k t c"
    with S Si(1) have "S = handleInputChange_heap k t Si"
      by (simp add: handleInputChange_component_def)
    then show ?thesis
      by (simp add: addressOf_handleInputChange)
  qed
  from wellAllocated_addressOf[OF this] Si(2) have "wellAllocated (S, snd c)"
    by simp
  from update_sim[OF this] u have "advances (S, snd c) (S', h')"
    by (simp add: h0)
  then have "heapGrows (snd c) h'"
    by (simp add: advances_def)
  with c' st0 show ?thesis
    using that by simp
qed

lemma undo_after_commit:
  assumes r: "c \<in> reachable ev"
    and b: "handleBlur_component ev n k c0 = Inr c'"
    and c0: "c0 = c \<or> c0 = handleInputChange_component k t c"
  shows "cells (fst (handleUndo_component c')) = cells (fst c)"
    and "\<exists>S0 S1. currentStore c = Some S0 \<and> currentStore (handleUndo_component c') = Some S1
           \<and> grown S0 S1"
    and "handleRedo_component (handleUndo_component c') = c'"
proof -
  from r have con: "consistent c"
    by (rule reachable_consistent)
  then obtain Si where Si: "cells (fst c) = Some Si" "Si = history (fst c) ! historyIndex (fst c)"
    "wellAllocated (Si, snd c)"
    by (rule consistent_current)
  from con have idx: "historyIndex (fst c) < length (history (fst c))"
    by (simp add: consistent_def)
  from con b c0 obtain S' h' where c': "c' = ((saveToHistory S' (fst c))\<lparr>cells := Some S'\<rparr>, h')"
    and hg: "heapGrows (snd c) h'"
    by (rule commit_shape)
  let ?i = "historyIndex (fst c)"
  have len: "length (take (Suc ?i) (history (fst c))) = Suc ?i"
    using idx by simp
  have n1: "nat (int (Suc ?i) - 1) = ?i" and n2: "nat (int ?i + 1) = Suc ?i"
    by simp_all
  show u: "cells (fst (handleUndo_component c')) = cells (fst c)"
    using len idx
    by (simp add: c' handleUndo_component_def handleUndo_def saveToHistory_def Let_def
        nthOrUndefined_def nth_append Si(1,2)[symmetric])
  have hs: "snd (handleUndo_component c') = h'"
    by (simp add: c' handleUndo_component_def)
  have "grown (view (Si, snd c)) (view (Si, h'))"
    using Si(3) hg by (rule grown_view)
  then show "\<exists>S0 S1. currentStore c = Some S0 \<and> currentStore (handleUndo_component c') = Some S1
           \<and> grown S0 S1"
    by (simp add: currentStore_def u hs Si(1) view_def)
  show "handleRedo_component (handleUndo_component c') = c'"
    using len idx
    by (simp add: c' handleUndo_component_def handleRedo_component_def handleUndo_def
        handleRedo_def saveToHistory_def Let_def nthOrUndefined_def nth_append n2)
qed

text \<open>
  C4. Undo after a commit does not give back the snapshot as it was. From the component
  with the committed store \<open>A1 = 5\<close> (no dependents), the commit of \<open>B1 = "=A1+1"\<close> pushes
  \<open>B1\<close> on the array of \<open>A1\<close>, which the snapshot under the cursor shares. Undo makes
  that snapshot object current again, and it now reads \<open>A1\<close> with the dependent \<open>B1\<close>,
  a cell that is not in the store. The edit \<open>A1 = "=B1"\<close> is then rejected as circular.
\<close>

theorem undo_returns_changed_snapshot:
  "handleBlur_component sampleEvaluate (Suc (Suc 0)) ''A1''
     (handleInputChange_component ''A1'' ''5'' initialComponent) = Inr componentA
   \<and> currentStore componentA = Some storeA
   \<and> handleBlur_component sampleEvaluate (Suc (Suc 0)) ''B1''
       (handleInputChange_component ''B1'' ''=A1+1'' componentA) = Inr componentAB
   \<and> currentStore componentAB = Some storeAB
   \<and> cells (fst (handleUndo_component componentAB)) = cells (fst componentA)
   \<and> currentStore (handleUndo_component componentAB) = Some undoneStore
   \<and> undoneStore \<noteq> storeA
   \<and> dependenciesOrEmpty storeA ''A1'' = []
   \<and> dependenciesOrEmpty undoneStore ''A1'' = [''B1'']
   \<and> undoneStore ''B1'' = None
   \<and> map_sum id currentStore
        (handleBlur_component sampleEvaluate (Suc (Suc (Suc 0))) ''A1''
           (handleInputChange_component ''A1'' ''=B1'' (handleUndo_component componentAB)))
       = Inr (Some undoneRejectedStore)
   \<and> valueOf undoneRejectedStore ''A1'' = Some (Str ''#CIRCULAR'')"
proof -
  have "undoneStore ''A1'' \<noteq> storeA ''A1''"
    by (simp add: undoneStore_def storeA_def)
  then have "undoneStore \<noteq> storeA"
    by auto
  then show ?thesis
    using componentA_commit componentA_store componentAB_commit componentAB_store undone_cells
      componentAB_undo undone_rejected
    by (simp add: dependenciesOrEmpty_def storeA_def undoneStore_def valueOf_def
        undoneRejectedStore_def)
qed

section \<open>The propagation of errors\<close>

text \<open>
  C5, as the code has it. A formula that references a cell whose value is \<^verbatim>\<open>#ERROR\<close> or
  \<^verbatim>\<open>#CIRCULAR\<close> is resolved to \<^verbatim>\<open>#ERROR\<close>, and the evaluator is not called (the log of its
  calls is empty). A commit of such a formula in an acyclic store leaves \<^verbatim>\<open>#ERROR\<close> in the
  edited cell, unless the cycle check fires for the edit (a reference of the formula is
  found from the edited cell along dependents), which leaves \<^verbatim>\<open>#CIRCULAR\<close> and resolves
  nothing; the refresh of the dependents does not touch the edited cell again. In every
  store reached by commits from the empty store, and in every store that is current in
  the component after any sequence of edits, undo and redo steps, \<^verbatim>\<open>#ERROR\<close> has been
  propagated along every chain of references between cells for whose formula the cycle
  check does not fire: a cell that reaches an \<^verbatim>\<open>#ERROR\<close> cell along such a chain holds
  \<^verbatim>\<open>#ERROR\<close>.
\<close>

theorem poisoning:
  "(startsWithEq f \<and> y \<in> set (parentsOf f)
      \<and> (valueOf allCells y = Some (Str ''#ERROR'') \<or> valueOf allCells y = Some (Str ''#CIRCULAR''))
     \<longrightarrow> calculateFormulaLog evaluate f allCells = (Str ''#ERROR'', [])
        \<and> calculateFormula evaluate f allCells = Str ''#ERROR''
        \<and> (acyclic (dependentsGraph allCells)
            \<and> updateCellAndDependents evaluate n x f allCells = Inr newCells
           \<longrightarrow> valueOf newCells x
                 = Some (Str (if \<exists>p\<in>set (parentsOf f). (x, p) \<in> (dependentsGraph allCells)\<^sup>*
                              then ''#CIRCULAR'' else ''#ERROR''))))
   \<and> (allCells \<in> committed evaluate \<and> (x, y) \<in> (acceptedReferences allCells)\<^sup>*
      \<and> valueOf allCells y = Some (Str ''#ERROR'')
     \<longrightarrow> valueOf allCells x = Some (Str ''#ERROR''))
   \<and> (c \<in> reachable evaluate \<and> currentStore c = Some allCells
      \<and> (x, y) \<in> (acceptedReferences allCells)\<^sup>* \<and> valueOf allCells y = Some (Str ''#ERROR'')
     \<longrightarrow> valueOf allCells x = Some (Str ''#ERROR''))"
proof (intro conjI impI)
  assume a: "startsWithEq f \<and> y \<in> set (parentsOf f)
      \<and> (valueOf allCells y = Some (Str ''#ERROR'') \<or> valueOf allCells y = Some (Str ''#CIRCULAR''))"
  then have "startsWithEq f" and "y \<in> set (parentsOf f)"
    and "valueOf allCells y = Some (Str ''#ERROR'') \<or> valueOf allCells y = Some (Str ''#CIRCULAR'')"
    by simp_all
  then show l: "calculateFormulaLog evaluate f allCells = (Str ''#ERROR'', [])"
    by (rule calculateFormulaLog_poisoned)
  then show v: "calculateFormula evaluate f allCells = Str ''#ERROR''"
    by (simp add: calculateFormula_def)
  assume "acyclic (dependentsGraph allCells)
            \<and> updateCellAndDependents evaluate n x f allCells = Inr newCells"
  then have "acyclic (dependentsGraph allCells)"
    and "updateCellAndDependents evaluate n x f allCells = Inr newCells"
    by simp_all
  from update_start_value[OF this] v
  show "valueOf newCells x
          = Some (Str (if \<exists>p\<in>set (parentsOf f). (x, p) \<in> (dependentsGraph allCells)\<^sup>*
                       then ''#CIRCULAR'' else ''#ERROR''))"
    by simp
next
  assume a: "allCells \<in> committed evaluate \<and> (x, y) \<in> (acceptedReferences allCells)\<^sup>*
      \<and> valueOf allCells y = Some (Str ''#ERROR'')"
  then have cm: "allCells \<in> committed evaluate"
    and ch: "(x, y) \<in> (acceptedReferences allCells)\<^sup>*"
    and e: "valueOf allCells y = Some (Str ''#ERROR'')"
    by simp_all
  from cm have "poisonSettledExcept {} allCells"
    by (rule committed_poisonSettled)
  then show "valueOf allCells x = Some (Str ''#ERROR'')"
    using ch e by (rule accepted_chain_poisoned)
next
  assume a: "c \<in> reachable evaluate \<and> currentStore c = Some allCells
      \<and> (x, y) \<in> (acceptedReferences allCells)\<^sup>* \<and> valueOf allCells y = Some (Str ''#ERROR'')"
  then have r: "c \<in> reachable evaluate" and cs: "currentStore c = Some allCells"
    and ch: "(x, y) \<in> (acceptedReferences allCells)\<^sup>*"
    and e: "valueOf allCells y = Some (Str ''#ERROR'')"
    by simp_all
  from r cs have "settled allCells"
    by (rule reachable_settled)
  then have "poisonSettledExcept {} allCells"
    by (simp add: settled_def)
  then show "valueOf allCells x = Some (Str ''#ERROR'')"
    using ch e by (rule accepted_chain_poisoned)
qed

theorem poisoning_witness:
  "startsWithEq ''=B1+1'' \<and> ''B1'' \<in> set (parentsOf ''=B1+1'')
   \<and> valueOf errStore ''B1'' = Some (Str ''#ERROR'')
   \<and> calculateFormulaLog sampleEvaluate ''=B1+1'' errStore = (Str ''#ERROR'', [])
   \<and> acyclic (dependentsGraph errStore)
   \<and> updateCellAndDependents sampleEvaluate (Suc (Suc (Suc 0))) ''C1'' ''=B1+1'' errStore
       = Inr errStoreC
   \<and> (''C1'', ''B1'') \<notin> (dependentsGraph errStore)\<^sup>*
   \<and> valueOf errStoreC ''C1'' = Some (Str ''#ERROR'')
   \<and> errStoreC \<in> committed sampleEvaluate
   \<and> (\<exists>c\<in>reachable sampleEvaluate. currentStore c = Some errStoreC)
   \<and> (''C1'', ''A1'') \<in> (acceptedReferences errStoreC)\<^sup>*
   \<and> valueOf errStoreC ''A1'' = Some (Str ''#ERROR'')"
proof -
  have p: "parentsOf ''=B1+1'' = [''B1'']"
    by (simp add: engine_defs)
  have s: "startsWithEq ''=B1+1''"
    by simp
  have v: "valueOf errStore ''B1'' = Some (Str ''#ERROR'')"
    by (simp add: valueOf_def errStore_def)
  have ac: "acyclic (dependentsGraph errStore)"
    using errStore_committed by (rule committed_acyclic)
  have c: "updateCellAndDependents sampleEvaluate (Suc (Suc (Suc 0))) ''C1'' ''=B1+1'' errStore
             = Inr errStoreC"
    using errStoreC_commit by (simp only: handleBlur_after_input)
  have n: "(''C1'', ''B1'') \<notin> (dependentsGraph errStore)\<^sup>*"
  proof
    assume "(''C1'', ''B1'') \<in> (dependentsGraph errStore)\<^sup>*"
    then obtain z where "(''C1'', z) \<in> dependentsGraph errStore"
      by (auto elim: converse_rtranclE)
    then show False
      by (simp add: mem_graph dependenciesOrEmpty_def errStore_def)
  qed
  have a: "valueOf errStoreC ''A1'' = Some (Str ''#ERROR'')"
    by (simp add: valueOf_def errStoreC_def)
  note T1 = poisoning[of "''=B1+1''" "''B1''" errStore sampleEvaluate
      "Suc (Suc (Suc 0))" "''C1''" errStoreC, THEN conjunct1, rule_format]
  have h: "startsWithEq ''=B1+1'' \<and> ''B1'' \<in> set (parentsOf ''=B1+1'')
      \<and> (valueOf errStore ''B1'' = Some (Str ''#ERROR'')
         \<or> valueOf errStore ''B1'' = Some (Str ''#CIRCULAR''))"
    using s p v by simp
  have l: "calculateFormulaLog sampleEvaluate ''=B1+1'' errStore = (Str ''#ERROR'', [])"
    using T1[OF h] by (rule conjunct1)
  have "valueOf errStoreC ''C1''
          = Some (Str (if \<exists>p\<in>set (parentsOf ''=B1+1''). (''C1'', p) \<in> (dependentsGraph errStore)\<^sup>*
                       then ''#CIRCULAR'' else ''#ERROR''))"
    using T1[OF h, THEN conjunct2, THEN conjunct2] ac c by (rule mp[OF _ conjI])
  then have x: "valueOf errStoreC ''C1'' = Some (Str ''#ERROR'')"
    using n by (simp add: p)
  have "valueOf errStoreC ''C1'' = Some (Str ''#ERROR'')"
    using poisoning[of "[]" "''A1''" errStoreC sampleEvaluate 0 "''C1''" errStoreC,
        THEN conjunct2, THEN conjunct1]
      errStoreC_committed errStoreC_chain a
    by (rule mp[OF _ conjI[OF _ conjI]])
  from committed_reachable[OF errStoreC_committed] obtain comp where
    comp: "comp \<in> reachable sampleEvaluate" "currentStore comp = Some errStoreC"
    by blast
  have "valueOf errStoreC ''C1'' = Some (Str ''#ERROR'')"
    using poisoning[of "[]" "''A1''" errStoreC sampleEvaluate 0 "''C1''" errStoreC comp,
        THEN conjunct2, THEN conjunct2]
      comp errStoreC_chain a
    by (rule mp[OF _ conjI[OF _ conjI[OF _ conjI]]])
  from comp have r: "\<exists>c\<in>reachable sampleEvaluate. currentStore c = Some errStoreC"
    by blast
  show ?thesis
    using s p v l ac c n x errStoreC_committed r errStoreC_chain a by simp
qed

text \<open>
  C5 says that any cell referencing an \<^verbatim>\<open>#ERROR\<close> cell becomes \<^verbatim>\<open>#ERROR\<close> when it is
  recomputed. After the commits \<open>A1 = 5\<close>, \<open>B1 = A1 + 1\<close> and \<open>B1 = "=1+"\<close> (on which the
  evaluator throws) the cell \<open>B1\<close> holds \<^verbatim>\<open>#ERROR\<close> and is still listed among the dependents of
  \<open>A1\<close>. The commit of \<open>A1 = "=B1+1"\<close> then finds \<open>B1\<close> from \<open>A1\<close>: the cycle check fires,
  although the formula of \<open>B1\<close> does not reference \<open>A1\<close> any more, and \<open>A1\<close> holds
  \<^verbatim>\<open>#CIRCULAR\<close>, not \<^verbatim>\<open>#ERROR\<close>.
\<close>

theorem poisoning_counterexample:
  "staleRejectedStore \<in> committed sampleEvaluate
   \<and> handleBlur sampleEvaluate (Suc (Suc (Suc 0))) ''A1''
        (handleInputChange ''A1'' ''=B1+1'' brokenStore) = Inr staleRejectedStore
   \<and> valueOf brokenStore ''B1'' = Some (Str ''#ERROR'')
   \<and> references staleRejectedStore ''A1'' ''B1''
   \<and> valueOf staleRejectedStore ''B1'' = Some (Str ''#ERROR'')
   \<and> \<not> references staleRejectedStore ''B1'' ''A1''
   \<and> valueOf staleRejectedStore ''A1'' = Some (Str ''#CIRCULAR'')
   \<and> valueOf staleRejectedStore ''A1'' \<noteq> Some (Str ''#ERROR'')"
proof -
  have "parentsOf ''=B1+1'' = [''B1'']" and "parentsOf ''=1+'' = []"
    by (simp_all add: engine_defs)
  then show ?thesis
    using staleRejectedStore_committed staleRejectedStore_commit
    by (simp add: valueOf_def references_def brokenStore_def staleRejectedStore_def)
qed

section \<open>The absent reference\<close>

text \<open>
  An edit of the component returns, as its current store, what the first model returns on
  the current store as it reads.
\<close>

lemma edit_store:
  assumes con: "consistent c" and cs: "currentStore c = Some allCells"
    and b: "handleBlur_component ev n k (handleInputChange_component k t c) = Inr c'"
  shows "\<exists>r. currentStore c' = Some r
           \<and> handleBlur ev n k (handleInputChange k t allCells) = Inr r"
proof -
  from con obtain S where S: "cells (fst c) = Some S" "wellAllocated (S, snd c)"
    by (rule consistent_current)
  with cs have v: "view (S, snd c) = allCells"
    by (simp add: currentStore_def view_def)
  let ?T = "handleInputChange_heap k t S"
  from b obtain S0 S' h' where S0: "cells (fst (handleInputChange_component k t c)) = Some S0"
    and u: "updateCellAndDependents_heap ev n k
           (case S0 k of None \<Rightarrow> [] | Some obj \<Rightarrow> objFormula obj)
           (S0, snd (handleInputChange_component k t c)) = Inr (S', h')"
    and c': "c' = ((saveToHistory S' (fst (handleInputChange_component k t c)))\<lparr>cells := Some S'\<rparr>, h')"
    by (rule handleBlur_component_Inr)
  from S0 S(1) have ST: "S0 = ?T"
    by (simp add: handleInputChange_component_def)
  have ft: "(case ?T k of None \<Rightarrow> [] | Some obj \<Rightarrow> objFormula obj) = t"
    by (simp add: handleInputChange_heap_def split: option.splits)
  from u have u': "updateCellAndDependents_heap ev n k t (?T, snd c) = Inr (S', h')"
    by (simp add: ST ft handleInputChange_component_def)
  have wa: "wellAllocated (?T, snd c)"
    using wellAllocated_addressOf[OF addressOf_handleInputChange, of k t S "snd c"] S(2)
    by simp
  from update_sim[OF wa, of ev n k t] u'
  have "updateCellAndDependents ev n k t (view (?T, snd c)) = Inr (view (S', h'))"
    by simp
  then have "handleBlur ev n k (handleInputChange k t allCells) = Inr (view (S', h'))"
    by (simp add: view_handleInputChange v handleBlur_formula)
  moreover have "currentStore c' = Some (view (S', h'))"
    by (simp add: c' currentStore_def view_def)
  ultimately show ?thesis
    by blast
qed

text \<open>
  C7, as the code has it. In a store in which \<open>Z99\<close> is absent and is in no \<^verbatim>\<open>dependencies\<close>
  list, the commit of \<open>C1 = "=Z99+1"\<close> creates \<open>Z99\<close> with the empty string as value and as
  formula and with \<open>C1\<close> among its dependents, and gives \<open>C1\<close> the value the evaluator
  returns for \<^verbatim>\<open>0+1\<close> (\<^verbatim>\<open>#ERROR\<close> when it throws): the absent cell is read as 0. The dependents
  of \<open>Z99\<close> are exactly \<open>[C1]\<close> when the cycle check fires for every other cell whose formula
  references \<open>Z99\<close> (a dependent of \<open>C1\<close> whose formula references \<open>Z99\<close> and passes the check
  is refreshed by the commit and pushed on the list as well). That is so in every store
  that is current in the component after any sequence of edits, undo and redo steps:
  there, \<open>Z99\<close> absent and in no \<^verbatim>\<open>dependencies\<close> list is enough for the dependents \<open>[C1]\<close>.
  When \<open>Z99\<close> is absent but in the \<^verbatim>\<open>dependencies\<close> of a cell that \<open>C1\<close> reaches, the cycle
  check fires and nothing is created; nothing is stated for such a store. More generally,
  after a commit that is not rejected every referenced cell is in the store with the
  edited cell among its dependents, and a commit never puts a cell twice into a list of
  dependents.
\<close>

theorem absent_reference_materialized:
  "(allCells ''Z99'' = None \<and> (\<forall>k. ''Z99'' \<notin> set (dependenciesOrEmpty allCells k))
      \<and> handleBlur evaluate n ''C1'' (handleInputChange ''C1'' ''=Z99+1'' allCells) = Inr r
    \<longrightarrow> content r ''Z99'' = Some (Str [], [])
        \<and> ''C1'' \<in> set (dependenciesOrEmpty r ''Z99'')
        \<and> valueOf r ''C1''
            = Some (case evaluate ''0+1'' of None \<Rightarrow> Str ''#ERROR'' | Some w \<Rightarrow> w)
        \<and> ((\<forall>x. x \<noteq> ''C1'' \<and> references allCells x ''Z99'' \<longrightarrow> rejectable allCells x)
            \<longrightarrow> r ''Z99'' = Some \<lparr>val = Str [], formula = [], dependencies = Some [''C1'']\<rparr>))
   \<and> (c \<in> reachable evaluate \<and> currentStore c = Some allCells
        \<and> allCells ''Z99'' = None \<and> (\<forall>k. ''Z99'' \<notin> set (dependenciesOrEmpty allCells k))
        \<and> handleBlur_component evaluate n ''C1''
             (handleInputChange_component ''C1'' ''=Z99+1'' c) = Inr c'
      \<longrightarrow> (\<exists>r'. currentStore c' = Some r'
             \<and> r' ''Z99'' = Some \<lparr>val = Str [], formula = [], dependencies = Some [''C1'']\<rparr>
             \<and> valueOf r' ''C1''
                 = Some (case evaluate ''0+1'' of None \<Rightarrow> Str ''#ERROR'' | Some w \<Rightarrow> w)))
   \<and> (updateCellAndDependents evaluate n startCellId newFormula allCells = Inr r
        \<and> (\<forall>q\<in>set (parentsOf newFormula). (startCellId, q) \<notin> (dependentsGraph allCells)\<^sup>*)
        \<and> p \<in> set (parentsOf newFormula)
      \<longrightarrow> p \<in> dom r \<and> startCellId \<in> set (dependenciesOrEmpty r p))
   \<and> (updateCellAndDependents evaluate n startCellId newFormula allCells = Inr r
        \<and> (\<forall>k. distinct (dependenciesOrEmpty allCells k))
      \<longrightarrow> (\<forall>k. distinct (dependenciesOrEmpty r k)))"
proof (intro conjI impI)
  assume a: "allCells ''Z99'' = None \<and> (\<forall>k. ''Z99'' \<notin> set (dependenciesOrEmpty allCells k))
      \<and> handleBlur evaluate n ''C1'' (handleInputChange ''C1'' ''=Z99+1'' allCells) = Inr r"
  then have upd: "updateCellAndDependents evaluate n ''C1'' ''=Z99+1'' allCells = Inr r"
    by (simp add: handleBlur_after_input)
  from a have absent: "allCells ''Z99'' = None"
    by simp
  from a have zr: "''Z99'' \<notin> Range (dependentsGraph allCells)"
    by (auto simp: dependentsGraph_def)
  have pf: "parentsOf ''=Z99+1'' = [''Z99'']"
    by (simp add: engine_defs)
  have ne: "''C1'' \<noteq> ''Z99''"
    by simp
  have "materializedIn ''Z99'' ''C1''
          (case evaluate ''0+1'' of None \<Rightarrow> Str ''#ERROR'' | Some w \<Rightarrow> w) ''=Z99+1'' r"
    using ne pf calculateFormula_Z99 absent zr upd by (rule materialize_commit_in)
  then show "content r ''Z99'' = Some (Str [], [])"
    and "''C1'' \<in> set (dependenciesOrEmpty r ''Z99'')"
    and "valueOf r ''C1''
            = Some (case evaluate ''0+1'' of None \<Rightarrow> Str ''#ERROR'' | Some w \<Rightarrow> w)"
    by (auto simp: materializedIn_def content_def valueOf_def)
  assume "\<forall>x. x \<noteq> ''C1'' \<and> references allCells x ''Z99'' \<longrightarrow> rejectable allCells x"
  then have ar: "\<And>x. x \<noteq> ''C1'' \<Longrightarrow> references allCells x ''Z99'' \<Longrightarrow> rejectable allCells x"
    by simp
  have "materializedFor ''Z99'' ''C1''
          (case evaluate ''0+1'' of None \<Rightarrow> Str ''#ERROR'' | Some w \<Rightarrow> w) ''=Z99+1'' r"
    using ne pf calculateFormula_Z99 absent zr ar upd by (rule materialize_commit)
  then show "r ''Z99'' = Some \<lparr>val = Str [], formula = [], dependencies = Some [''C1'']\<rparr>"
    by (simp add: materializedFor_def)
next
  assume a: "c \<in> reachable evaluate \<and> currentStore c = Some allCells
        \<and> allCells ''Z99'' = None \<and> (\<forall>k. ''Z99'' \<notin> set (dependenciesOrEmpty allCells k))
        \<and> handleBlur_component evaluate n ''C1''
             (handleInputChange_component ''C1'' ''=Z99+1'' c) = Inr c'"
  then have rc: "c \<in> reachable evaluate" and cs: "currentStore c = Some allCells"
    and absent: "allCells ''Z99'' = None"
    and b: "handleBlur_component evaluate n ''C1''
             (handleInputChange_component ''C1'' ''=Z99+1'' c) = Inr c'"
    by simp_all
  from a have zr: "''Z99'' \<notin> Range (dependentsGraph allCells)"
    by (auto simp: dependentsGraph_def)
  from rc have "consistent c"
    by (rule reachable_consistent)
  from edit_store[OF this cs b] obtain r' where r': "currentStore c' = Some r'"
    "handleBlur evaluate n ''C1'' (handleInputChange ''C1'' ''=Z99+1'' allCells) = Inr r'"
    by blast
  from r'(2) have upd: "updateCellAndDependents evaluate n ''C1'' ''=Z99+1'' allCells = Inr r'"
    by (simp add: handleBlur_after_input)
  from rc cs have "settled allCells"
    by (rule reachable_settled)
  then have "absentRejectedExcept {} allCells"
    by (simp add: settled_def)
  with absent have ar: "\<And>x. x \<noteq> ''C1'' \<Longrightarrow> references allCells x ''Z99'' \<Longrightarrow> rejectable allCells x"
    by (auto simp: absentRejectedExcept_def)
  have pf: "parentsOf ''=Z99+1'' = [''Z99'']"
    by (simp add: engine_defs)
  have ne: "''C1'' \<noteq> ''Z99''"
    by simp
  have "materializedFor ''Z99'' ''C1''
          (case evaluate ''0+1'' of None \<Rightarrow> Str ''#ERROR'' | Some w \<Rightarrow> w) ''=Z99+1'' r'"
    using ne pf calculateFormula_Z99 absent zr ar upd by (rule materialize_commit)
  then have "r' ''Z99'' = Some \<lparr>val = Str [], formula = [], dependencies = Some [''C1'']\<rparr>"
    and "valueOf r' ''C1''
          = Some (case evaluate ''0+1'' of None \<Rightarrow> Str ''#ERROR'' | Some w \<Rightarrow> w)"
    by (auto simp: materializedFor_def content_def valueOf_def)
  with r'(1) show "\<exists>r'. currentStore c' = Some r'
             \<and> r' ''Z99'' = Some \<lparr>val = Str [], formula = [], dependencies = Some [''C1'']\<rparr>
             \<and> valueOf r' ''C1''
                 = Some (case evaluate ''0+1'' of None \<Rightarrow> Str ''#ERROR'' | Some w \<Rightarrow> w)"
    by blast
next
  assume a: "updateCellAndDependents evaluate n startCellId newFormula allCells = Inr r
        \<and> (\<forall>q\<in>set (parentsOf newFormula). (startCellId, q) \<notin> (dependentsGraph allCells)\<^sup>*)
        \<and> p \<in> set (parentsOf newFormula)"
  then have "updateCellAndDependents evaluate n startCellId newFormula allCells = Inr r"
    and "\<forall>q\<in>set (parentsOf newFormula). (startCellId, q) \<notin> (dependentsGraph allCells)\<^sup>*"
    and "p \<in> set (parentsOf newFormula)"
    by simp_all
  then have "p \<in> dom r \<and> startCellId \<in> set (dependenciesOrEmpty r p)"
    by (rule update_parent_recorded)
  then show "p \<in> dom r" and "startCellId \<in> set (dependenciesOrEmpty r p)"
    by simp_all
next
  assume "updateCellAndDependents evaluate n startCellId newFormula allCells = Inr r
        \<and> (\<forall>k. distinct (dependenciesOrEmpty allCells k))"
  then show "\<forall>k. distinct (dependenciesOrEmpty r k)"
    using update_distinct by blast
qed

lemma componentCZ_commit:
  "map_sum id currentStore
     (handleBlur_component sampleEvaluate (Suc (Suc 0)) ''C1''
        (handleInputChange_component ''C1'' ''=Z99+1'' initialComponent))
   = Inr (Some storeCZ)"
  by (simp add: handleBlur_component_def handleInputChange_component_def initialComponent_def
      initialApp_def currentStore_def handleInputChange_heap_def saveToHistory_def
      dependenciesOrNew_def newArray_def materialize_heap_def pushDependent_heap_def
      readStore_def readCell_def sampleEvaluate_def storeCZ_def engine_defs fun_eq_iff)

theorem absent_reference_materialized_witness:
  "Map.empty ''Z99'' = None
   \<and> handleBlur sampleEvaluate (Suc (Suc 0)) ''C1'' (handleInputChange ''C1'' ''=Z99+1'' Map.empty)
       = Inr storeCZ
   \<and> content storeCZ ''Z99'' = Some (Str [], [])
   \<and> ''C1'' \<in> set (dependenciesOrEmpty storeCZ ''Z99'')
   \<and> storeCZ ''Z99'' = Some \<lparr>val = Str [], formula = [], dependencies = Some [''C1'']\<rparr>
   \<and> valueOf storeCZ ''C1'' = Some (Num 1)
   \<and> initialComponent \<in> reachable sampleEvaluate
   \<and> currentStore initialComponent = Some Map.empty
   \<and> map_sum id currentStore
        (handleBlur_component sampleEvaluate (Suc (Suc 0)) ''C1''
           (handleInputChange_component ''C1'' ''=Z99+1'' initialComponent))
       = Inr (Some storeCZ)"
proof -
  have h: "handleBlur sampleEvaluate (Suc (Suc 0)) ''C1''
             (handleInputChange ''C1'' ''=Z99+1'' Map.empty) = Inr storeCZ"
    using storeCZ_commit by (simp only: handleBlur_after_input)
  have d: "\<forall>k. ''Z99'' \<notin> set (dependenciesOrEmpty Map.empty k)"
    by (simp add: dependenciesOrEmpty_def)
  have x: "\<forall>x. x \<noteq> ''C1'' \<and> references Map.empty x ''Z99'' \<longrightarrow> rejectable Map.empty x"
    by (simp add: references_def)
  have "Map.empty ''Z99'' = None \<and> (\<forall>k. ''Z99'' \<notin> set (dependenciesOrEmpty Map.empty k))
      \<and> handleBlur sampleEvaluate (Suc (Suc 0)) ''C1''
             (handleInputChange ''C1'' ''=Z99+1'' Map.empty) = Inr storeCZ"
    using d h by simp
  with absent_reference_materialized[of Map.empty sampleEvaluate "Suc (Suc 0)" storeCZ,
      THEN conjunct1]
  have c: "content storeCZ ''Z99'' = Some (Str [], [])
        \<and> ''C1'' \<in> set (dependenciesOrEmpty storeCZ ''Z99'')
        \<and> valueOf storeCZ ''C1''
            = Some (case sampleEvaluate ''0+1'' of None \<Rightarrow> Str ''#ERROR'' | Some w \<Rightarrow> w)
        \<and> ((\<forall>x. x \<noteq> ''C1'' \<and> references Map.empty x ''Z99'' \<longrightarrow> rejectable Map.empty x)
            \<longrightarrow> storeCZ ''Z99'' = Some \<lparr>val = Str [], formula = [], dependencies = Some [''C1'']\<rparr>)"
    by (rule mp)
  then have z: "storeCZ ''Z99'' = Some \<lparr>val = Str [], formula = [], dependencies = Some [''C1'']\<rparr>"
    using x by blast
  have i: "initialComponent \<in> reachable sampleEvaluate"
    by (rule reachable.start)
  have e: "currentStore initialComponent = Some Map.empty"
    by (simp add: currentStore_def initialComponent_def initialApp_def readStore_def)
  from componentCZ_commit obtain c' where c':
    "handleBlur_component sampleEvaluate (Suc (Suc 0)) ''C1''
       (handleInputChange_component ''C1'' ''=Z99+1'' initialComponent) = Inr c'"
    "currentStore c' = Some storeCZ"
    by (auto dest: map_sum_Inr)
  have "initialComponent \<in> reachable sampleEvaluate
      \<and> currentStore initialComponent = Some Map.empty
      \<and> Map.empty ''Z99'' = None \<and> (\<forall>k. ''Z99'' \<notin> set (dependenciesOrEmpty Map.empty k))
      \<and> handleBlur_component sampleEvaluate (Suc (Suc 0)) ''C1''
           (handleInputChange_component ''C1'' ''=Z99+1'' initialComponent) = Inr c'"
    using i e d c'(1) by simp
  with absent_reference_materialized[of Map.empty sampleEvaluate "Suc (Suc 0)" storeCZ
      initialComponent c', THEN conjunct2, THEN conjunct1]
  have "\<exists>r'. currentStore c' = Some r'
             \<and> r' ''Z99'' = Some \<lparr>val = Str [], formula = [], dependencies = Some [''C1'']\<rparr>
             \<and> valueOf r' ''C1''
                 = Some (case sampleEvaluate ''0+1'' of None \<Rightarrow> Str ''#ERROR'' | Some w \<Rightarrow> w)"
    by (rule mp)
  with c z show ?thesis
    using h i e componentCZ_commit by (simp add: sampleEvaluate_def)
qed

end
